theory Spec2Isabelle
  imports Main "HOL-Library.Word" "HOL-Library.Sublist" "HOL-Library.AList"
    "HOL-Library.Multiset"
begin

section \<open>JavaScript strings\<close>

text \<open>
  A JavaScript string is a sequence of UTF-16 code units, and \<open>length\<close>, \<open>substr\<close>,
  \<open>indexOf\<close> and the character class \<open>[^/]\<close> all count code units. A string is
  therefore a list of 16-bit words; \<open>js\<close> turns an ASCII literal into one.
\<close>

type_synonym jschar = "16 word"
type_synonym jsstring = "jschar list"

definition js :: "string \<Rightarrow> jsstring" where
  "js s = map (\<lambda>c. of_nat (of_char c)) s"

text \<open>
  \<open>s.substr(start, len)\<close> and \<open>s.substr(start)\<close> for a start that is not negative (the
  router only passes such starts). A start beyond the end gives the empty string, and
  a negative length counts as zero: with natural numbers \<open>k - j\<close> is already \<open>0\<close> when
  \<open>k < j\<close>.
\<close>

definition substr :: "jsstring \<Rightarrow> nat \<Rightarrow> nat \<Rightarrow> jsstring" where
  "substr s start len = take len (drop start s)"

definition substr_from :: "jsstring \<Rightarrow> nat \<Rightarrow> jsstring" where
  "substr_from s start = drop start s"

text \<open>
  \<open>s.indexOf(t, pos)\<close> and \<open>s.lastIndexOf(t)\<close>; the result \<open>-1\<close> of the source is
  \<open>None\<close> here.
\<close>

definition indexOf :: "jsstring \<Rightarrow> jsstring \<Rightarrow> nat \<Rightarrow> nat option" where
  "indexOf s t pos = find (\<lambda>k. prefix t (drop k s)) [min pos (length s) ..< Suc (length s)]"

definition lastIndexOf :: "jsstring \<Rightarrow> jsstring \<Rightarrow> nat option" where
  "lastIndexOf s t = find (\<lambda>k. prefix t (drop k s)) (rev [0 ..< Suc (length s)])"

text \<open>
  \<open>s.trim()\<close> removes the code units of the ECMAScript classes WhiteSpace and
  LineTerminator from both ends.
\<close>

definition is_ws :: "jschar \<Rightarrow> bool" where
  "is_ws c \<longleftrightarrow> c \<in> set [0x9, 0xA, 0xB, 0xC, 0xD, 0x20, 0xA0, 0x1680,
     0x2000, 0x2001, 0x2002, 0x2003, 0x2004, 0x2005, 0x2006, 0x2007, 0x2008, 0x2009, 0x200A,
     0x2028, 0x2029, 0x202F, 0x205F, 0x3000, 0xFEFF]"

definition trim :: "jsstring \<Rightarrow> jsstring" where
  "trim s = rev (dropWhile is_ws (rev (dropWhile is_ws s)))"

text \<open>\<open>s.split(sep)\<close> for a separator of one code unit.\<close>

fun split_on :: "jschar \<Rightarrow> jsstring \<Rightarrow> jsstring list" where
  "split_on sep [] = [[]]"
| "split_on sep (x # xs) =
     (if x = sep then [] # split_on sep xs
      else (case split_on sep xs of [] \<Rightarrow> [[x]] | w # ws \<Rightarrow> (x # w) # ws))"

section \<open>Data model\<close>

text \<open>
  Handlers are JavaScript functions, compared by identity when they are removed. A
  handler is named by a number; what it does is looked up in an environment (see
  \<open>handler_env\<close> below).
\<close>

type_synonym hid = nat

text \<open>The values that the arguments record of a \<open>routed\<close> event can hold.\<close>

datatype jsval = Undefined | Str jsstring | RouteRef jsstring

type_synonym jsargs = "(jsstring \<times> jsval) list"

text \<open>
  What the router does that an outside observer sees: a call of \<open>dispatch\<close> on the
  route stored under a key, a call of a handler (the flag is \<open>True\<close> on the channel
  \<open>unrouted\<close> and \<open>False\<close> on \<open>routed\<close>) with its arguments record, an
  assignment to the platform's \<open>location.hash\<close>, and a call of the platform's
  \<open>location.replace\<close>.
\<close>

datatype event =
    Dispatch jsstring
  | Invoke hid bool jsargs
  | SetHash jsstring
  | Replace jsstring

text \<open>
  The class \<open>Route\<close>. \<open>rvalue\<close> is the field \<open>value\<close>; \<open>s_args = None\<close> is \<open>null\<close>;
  \<open>routed\<close> and \<open>unrouted\<close> are the listener lists of the two channels that the
  inherited event dispatcher keeps, in registration order.
\<close>

record route =
  routeRegex :: jsstring
  rvalue :: jsstring
  params :: "jsstring list"
  s_args :: "jsstring option"
  active :: bool
  changed :: bool
  routed :: "hid list"
  unrouted :: "hid list"

text \<open>
  The object \<open>_Router\<close>. \<open>trace\<close> is the observation log, which is no field of the
  source object: every function below only appends to it.
\<close>

record router =
  routes :: "jsstring \<rightharpoonup> route"
  sortedRoutes :: "jsstring list"
  ignoreHashchangeEvent :: nat
  location :: jsstring
  args :: "jsstring list"
  alreadyAttached :: bool
  trace :: "event list"

definition Router0 :: router where
  "Router0 = \<lparr>routes = Map.empty, sortedRoutes = [], ignoreHashchangeEvent = 0,
     location = [], args = [], alreadyAttached = False, trace = []\<rparr>"

section \<open>realLocation\<close>

text \<open>
  The automaton of \<open>realLocation\<close>. A configuration is the tuple of the local
  variables \<open>state\<close>, \<open>i\<close>, \<open>j\<close> and \<open>rLocation\<close>; \<open>Halt\<close> is the state \<open>-1\<close>.
  \<open>rl_step\<close> is one pass through the \<open>switch\<close>.
\<close>

datatype rl_state = S0 | S1 | S2 | S3 | Halt

type_synonym rl_conf = "rl_state \<times> nat \<times> nat \<times> jsstring"

fun rl_step :: "jsstring \<Rightarrow> jsstring \<Rightarrow> rl_conf \<Rightarrow> rl_conf" where
  "rl_step cLocation pLocation (S0, i, j, rLocation) =
     (if substr cLocation i 1 = js ''*'' then (S1, i + 1, j, rLocation)
      else if substr cLocation i 1 \<noteq> substr pLocation j 1
        then (Halt, i + 1, j + 1, rLocation @ substr_from cLocation i)
      else (S0, i + 1, j + 1, rLocation @ substr pLocation j 1))"
| "rl_step cLocation pLocation (S1, i, j, rLocation) =
     (if substr cLocation i 1 = js ''*'' then (S3, i + 1, j, rLocation)
      else (S2, i, j, rLocation))"
| "rl_step cLocation pLocation (S2, i, j, rLocation) =
     (case indexOf pLocation (substr cLocation i 1) j of
        None \<Rightarrow> (Halt, i, j, rLocation @ substr_from pLocation j @ substr_from cLocation i)
      | Some k \<Rightarrow> (S0, i, k, rLocation @ substr pLocation j (k - j)))"
| "rl_step cLocation pLocation (S3, i, j, rLocation) =
     (case lastIndexOf pLocation (substr cLocation i 1) of
        None \<Rightarrow> (Halt, i, j, rLocation @ substr_from cLocation i)
      | Some k \<Rightarrow> (S0, i, k, rLocation @ substr pLocation j (k - j)))"
| "rl_step cLocation pLocation (Halt, i, j, rLocation) = (Halt, i, j, rLocation)"

definition rl_running :: "jsstring \<Rightarrow> jsstring \<Rightarrow> rl_conf \<Rightarrow> bool" where
  "rl_running cLocation pLocation conf =
     (case conf of (state, i, j, rLocation) \<Rightarrow>
        state \<noteq> Halt \<and> i < length cLocation \<and> j < length pLocation)"

fun rl_rank :: "rl_state \<Rightarrow> nat" where
  "rl_rank S1 = 2"
| "rl_rank S2 = 1"
| "rl_rank S3 = 1"
| "rl_rank S0 = 0"
| "rl_rank Halt = 0"

definition rl_measure :: "jsstring \<Rightarrow> rl_conf \<Rightarrow> nat" where
  "rl_measure cLocation conf =
     (case conf of (state, i, j, rLocation) \<Rightarrow> 4 * (length cLocation - i) + rl_rank state)"

lemma rl_step_decreases:
  "rl_running cLocation pLocation conf \<Longrightarrow>
   rl_measure cLocation (rl_step cLocation pLocation conf) < rl_measure cLocation conf"
proof -
  obtain state i j r where conf: "conf = (state, i, j, r)"
    by (cases conf) auto
  assume "rl_running cLocation pLocation conf"
  then have "i < length cLocation" and "state \<noteq> Halt"
    by (simp_all add: conf rl_running_def)
  then show ?thesis
    by (cases state) (auto simp: conf rl_measure_def split: option.splits)
qed

function rl_loop :: "jsstring \<Rightarrow> jsstring \<Rightarrow> rl_conf \<Rightarrow> rl_conf" where
  "rl_loop cLocation pLocation conf =
     (if rl_running cLocation pLocation conf
      then rl_loop cLocation pLocation (rl_step cLocation pLocation conf)
      else conf)"
  by pat_completeness auto
termination
  by (relation "measure (\<lambda>(cLocation, pLocation, conf). rl_measure cLocation conf)")
     (auto simp: rl_step_decreases)

declare rl_loop.simps [simp del]

text \<open>
  The configurations that the loop goes through, in order, the last one being the one
  it exits with.
\<close>

function rl_trace :: "jsstring \<Rightarrow> jsstring \<Rightarrow> rl_conf \<Rightarrow> rl_conf list" where
  "rl_trace cLocation pLocation conf =
     conf # (if rl_running cLocation pLocation conf
             then rl_trace cLocation pLocation (rl_step cLocation pLocation conf)
             else [])"
  by pat_completeness auto
termination
  by (relation "measure (\<lambda>(cLocation, pLocation, conf). rl_measure cLocation conf)")
     (auto simp: rl_step_decreases)

declare rl_trace.simps [simp del]

text \<open>
  \<open>realLocation (cLocation, pLocation)\<close> as a method of the router \<open>this\<close>. An omitted
  second argument is \<open>None\<close>; it and the empty string are the falsy values that the two
  guards at the head of the function replace (\<open>rl_context\<close>).
\<close>

definition rl_context :: "router \<Rightarrow> jsstring option \<Rightarrow> jsstring" where
  "rl_context this pLocation =
     (let p0 = (case pLocation of None \<Rightarrow> location this
                | Some p \<Rightarrow> if p = [] then location this else p)
      in if p0 = [] then js '' '' else p0)"

definition realLocation :: "router \<Rightarrow> jsstring \<Rightarrow> jsstring option \<Rightarrow> jsstring" where
  "realLocation this cLocation pLocation =
     (case rl_loop cLocation (rl_context this pLocation) (S0, 0, 0, []) of
        (state, i, j, rLocation) \<Rightarrow>
           trim (if state \<noteq> Halt then rLocation @ substr_from cLocation i else rLocation))"

section \<open>The platform's regular expressions\<close>

text \<open>
  \<open>dispatch\<close> hands the compiled string to the platform: \<open>route.match (this.routeRegex)\<close>
  builds a regular expression from it. The model computes the result for the
  expressions made of literal code units, the dot, and the group \<open>([^/]+)\<close> that the
  compiler inserts; \<open>rx_parse\<close> returns \<open>None\<close> for every other expression, that is as
  soon as one of the syntax characters \<open>^ $ . * + ? ( ) [ ] { } |\<close> and the backslash
  is used in another way. What the platform does with those is a parameter of the
  model (\<open>regexp_engine\<close> below).
\<close>

datatype rx = Lit jschar | Dot | Grp

definition rx_special :: "jschar list" where
  "rx_special = js ''^$.*+?()[]{}|'' @ [0x5C]"

definition grp_text :: jsstring where
  "grp_text = js ''([^/]+)''"

definition is_line_terminator :: "jschar \<Rightarrow> bool" where
  "is_line_terminator c \<longleftrightarrow> c \<in> set [0xA, 0xD, 0x2028, 0x2029]"

fun rx_parse :: "jsstring \<Rightarrow> rx list option" where
  "rx_parse [] = Some []"
| "rx_parse (x # xs) =
     (if prefix grp_text (x # xs) then map_option (Cons Grp) (rx_parse (drop 6 xs))
      else if x = 0x2E then map_option (Cons Dot) (rx_parse xs)
      else if x \<in> set rx_special then None
      else map_option (Cons (Lit x)) (rx_parse xs))"

fun first_some :: "'a option list \<Rightarrow> 'a option" where
  "first_some [] = None"
| "first_some (None # xs) = first_some xs"
| "first_some (Some y # xs) = Some y"

text \<open>
  Matching at the start of the subject, with the captures of the groups in order.
  The group is greedy and backtracks: it first takes every code unit up to the next
  \<open>/\<close>, then one fewer, down to one, until the rest of the expression matches.
\<close>

fun rx_match :: "rx list \<Rightarrow> jsstring \<Rightarrow> jsstring list option" where
  "rx_match [] s = Some []"
| "rx_match (Lit c # rs) s =
     (case s of [] \<Rightarrow> None | x # xs \<Rightarrow> if x = c then rx_match rs xs else None)"
| "rx_match (Dot # rs) s =
     (case s of [] \<Rightarrow> None
      | x # xs \<Rightarrow> if is_line_terminator x then None else rx_match rs xs)"
| "rx_match (Grp # rs) s =
     first_some (map (\<lambda>n. map_option (Cons (take n s)) (rx_match rs (drop n s)))
       (rev [1 ..< Suc (length (takeWhile (\<lambda>x. x \<noteq> 0x2F) s))]))"

text \<open>
  \<open>s.match (regex)\<close> for a string \<open>regex\<close>: \<open>Throws\<close> is the \<open>SyntaxError\<close> that
  \<open>new RegExp (regex)\<close> raises for a string that is no regular expression, \<open>Null\<close> is
  the result \<open>null\<close>, and \<open>Matches\<close> holds the elements \<open>matches[1]\<close>, \<open>matches[2]\<close>,
  ... of the result. The expressions of the router all start with the anchor \<open>^\<close>, so
  that a match can only start at index 0.

  Outside the fragment of \<open>rx_parse\<close> the result is the one of the platform's engine,
  which the model takes as a parameter: a function from the subject and the
  expression to the result, about which nothing is assumed. One case is decided
  without it: an expression with an opening parenthesis and neither a closing
  parenthesis, a bracket nor a backslash has a group that is not terminated, which
  every engine rejects.
\<close>

datatype match_result = Throws | Null | Matches "jsstring list"

type_synonym regexp_engine = "jsstring \<Rightarrow> jsstring \<Rightarrow> match_result"

definition unterminated_group :: "jsstring \<Rightarrow> bool" where
  "unterminated_group body \<longleftrightarrow>
     0x28 \<in> set body \<and> 0x29 \<notin> set body \<and> 0x5B \<notin> set body \<and> 0x5C \<notin> set body"

definition str_match :: "regexp_engine \<Rightarrow> jsstring \<Rightarrow> jsstring \<Rightarrow> match_result" where
  "str_match engine s regex =
     (case regex of
        [] \<Rightarrow> engine s regex
      | x # body \<Rightarrow>
          if x \<noteq> 0x5E then engine s regex
          else (case rx_parse body of
                  None \<Rightarrow> if unterminated_group body then Throws else engine s regex
                | Some rs \<Rightarrow>
                    (case rx_match rs s of None \<Rightarrow> Null | Some caps \<Rightarrow> Matches caps)))"

section \<open>Route\<close>

text \<open>
  \<open>_compileRoute\<close>. \<open>token_exec\<close> is \<open>/:([!@A-Za-z0-9_-]+)/.exec (route)\<close>: it returns
  the pair of \<open>m[0]\<close> and \<open>m[1]\<close> of the leftmost match, the name being as long as
  possible. \<open>replace_first\<close> is \<open>String.replace\<close> with a string pattern, which
  replaces the first occurrence (the replacement text of the router holds no \<open>$\<close>);
  \<open>remove_hashes\<close> is \<open>replace (/##/g, "")\<close>.
\<close>

definition is_name_char :: "jschar \<Rightarrow> bool" where
  "is_name_char c \<longleftrightarrow>
     c = 0x21 \<or> c = 0x40 \<or> (0x41 \<le> c \<and> c \<le> 0x5A) \<or> (0x61 \<le> c \<and> c \<le> 0x7A) \<or>
     (0x30 \<le> c \<and> c \<le> 0x39) \<or> c = 0x5F \<or> c = 0x2D"

fun token_exec :: "jsstring \<Rightarrow> (jsstring \<times> jsstring) option" where
  "token_exec [] = None"
| "token_exec (x # xs) =
     (if x = 0x3A \<and> takeWhile is_name_char xs \<noteq> []
      then Some (x # takeWhile is_name_char xs, takeWhile is_name_char xs)
      else token_exec xs)"

definition replace_first :: "jsstring \<Rightarrow> jsstring \<Rightarrow> jsstring \<Rightarrow> jsstring" where
  "replace_first s pat rep =
     (case indexOf s pat 0 of
        None \<Rightarrow> s
      | Some k \<Rightarrow> take k s @ rep @ drop (k + length pat) s)"

fun remove_hashes :: "jsstring \<Rightarrow> jsstring" where
  "remove_hashes (a # b # xs) =
     (if a = 0x23 \<and> b = 0x23 then remove_hashes xs else a # remove_hashes (b # xs))"
| "remove_hashes xs = xs"

text \<open>The loop of the compiler ends because every pass removes one colon.\<close>

definition colons :: "jsstring \<Rightarrow> nat" where
  "colons s = length (filter (\<lambda>c. c = 0x3A) s)"

lemma js_simps:
  "js [] = []"
  "js (c # cs) = of_nat (of_char c) # js cs"
  by (simp_all add: js_def)

lemma colons_append: "colons (a @ b) = colons a + colons b"
  by (simp add: colons_def)

lemma colons_name: "colons (takeWhile is_name_char xs) = 0"
proof -
  have "\<forall>c \<in> set (takeWhile is_name_char xs). c \<noteq> 0x3A"
    by (auto dest!: set_takeWhileD simp: is_name_char_def)
  then show ?thesis
    by (simp add: colons_def filter_empty_conv)
qed

lemma token_exec_shape:
  "token_exec s = Some (m0, m1) \<Longrightarrow> m0 = 0x3A # m1 \<and> m1 \<noteq> [] \<and> colons m1 = 0"
  by (induction s) (auto simp: colons_name split: if_splits)

lemma token_exec_occurs:
  "token_exec s = Some (m0, m1) \<Longrightarrow> \<exists>k \<le> length s. prefix m0 (drop k s)"
proof (induction s)
  case Nil
  then show ?case by simp
next
  case (Cons x xs)
  show ?case
  proof (cases "x = 0x3A \<and> takeWhile is_name_char xs \<noteq> []")
    case True
    with Cons.prems have "m0 = x # takeWhile is_name_char xs" by auto
    then have "prefix m0 (drop 0 (x # xs))"
      by (simp add: takeWhile_is_prefix)
    then show ?thesis by blast
  next
    case False
    with Cons.prems have "token_exec xs = Some (m0, m1)" by auto
    from Cons.IH [OF this] obtain k where "k \<le> length xs" "prefix m0 (drop k xs)" by blast
    then have "Suc k \<le> length (x # xs) \<and> prefix m0 (drop (Suc k) (x # xs))" by simp
    then show ?thesis by blast
  qed
qed

lemma indexOf_0_Some:
  assumes "k \<le> length s" "prefix t (drop k s)"
  shows "\<exists>k'. indexOf s t 0 = Some k' \<and> prefix t (drop k' s)"
proof -
  have "k \<in> set [0 ..< Suc (length s)]" using assms(1) by auto
  with assms(2) have "find (\<lambda>k. prefix t (drop k s)) [0 ..< Suc (length s)] \<noteq> None"
    unfolding find_None_iff by blast
  then obtain k' where k': "find (\<lambda>k. prefix t (drop k s)) [0 ..< Suc (length s)] = Some k'"
    by blast
  then have "prefix t (drop k' s)"
    by (auto simp: find_Some_iff)
  with k' show ?thesis by (simp add: indexOf_def)
qed

lemma replace_first_colons:
  assumes "token_exec s = Some (m0, m1)"
  shows "colons (replace_first s m0 grp_text) < colons s"
proof -
  from token_exec_occurs [OF assms] indexOf_0_Some obtain k
    where k: "indexOf s m0 0 = Some k" "prefix m0 (drop k s)" by blast
  then obtain rest where rest: "drop k s = m0 @ rest"
    by (auto simp: prefix_def)
  have "colons s = colons (take k s) + colons (drop k s)"
    by (metis append_take_drop_id colons_append)
  then have whole: "colons s = colons (take k s) + (colons m0 + colons rest)"
    by (simp add: rest colons_append)
  have "drop (length m0) (drop k s) = rest"
    by (simp add: rest)
  then have tail: "drop (k + length m0) s = rest"
    by (simp add: add.commute)
  have m0: "colons m0 = 1"
    using token_exec_shape [OF assms] by (simp add: colons_def)
  have grp: "colons grp_text = 0"
    by (simp add: colons_def grp_text_def js_simps)
  show ?thesis
    by (simp add: replace_first_def k(1) tail colons_append whole m0 grp)
qed

function compile_loop :: "jsstring \<Rightarrow> jsstring list \<Rightarrow> jsstring \<times> jsstring list" where
  "compile_loop route ps =
     (case token_exec route of
        None \<Rightarrow> (route, ps)
      | Some (m0, m1) \<Rightarrow> compile_loop (replace_first route m0 grp_text) (ps @ [m1]))"
  by pat_completeness auto
termination
  by (relation "measure (\<lambda>(route, ps). colons route)") (auto simp: replace_first_colons)

declare compile_loop.simps [simp del]

text \<open>
  \<open>compileRoute\<close> returns the fields \<open>routeRegex\<close> and \<open>params\<close> that the source
  assigns, and \<open>new_Route\<close> is the constructor with the defaults of the class.
\<close>

definition compileRoute :: "jsstring \<Rightarrow> jsstring \<times> jsstring list" where
  "compileRoute route =
     (case compile_loop route [] of (route', ps) \<Rightarrow> (js ''^'' @ remove_hashes route', ps))"

definition new_Route :: "jsstring \<Rightarrow> route" where
  "new_Route r =
     (case compileRoute r of (regex, ps) \<Rightarrow>
        \<lparr>routeRegex = regex, rvalue = r, params = ps, s_args = None, active = False,
         changed = False, routed = [], unrouted = []\<rparr>)"

text \<open>
  Modelled from the spec: \<open>addEventListener\<close> and \<open>removeEventListener\<close> of the event
  dispatcher that \<open>Route\<close> extends are not in the source files. A channel keeps its
  listeners in registration order, and removal matches by handler identity.
\<close>

definition addHandler :: "hid \<Rightarrow> bool \<Rightarrow> route \<Rightarrow> route" where
  "addHandler handler is_unrouted r =
     (if is_unrouted then r\<lparr>unrouted := unrouted r @ [handler]\<rparr>
      else r\<lparr>routed := routed r @ [handler]\<rparr>)"

definition removeHandler :: "hid \<Rightarrow> bool \<Rightarrow> route \<Rightarrow> route" where
  "removeHandler handler is_unrouted r =
     (if is_unrouted then r\<lparr>unrouted := removeAll handler (unrouted r)\<rparr>
      else r\<lparr>routed := removeAll handler (routed r)\<rparr>)"

section \<open>The route table\<close>

text \<open>
  \<open>TypeError\<close> is what the platform raises when a method is called on a value that
  has none, and \<open>SyntaxError\<close> what it raises for a string that is no regular
  expression. A call that raises leaves the router as it is at that moment: its result
  is \<open>Inl\<close> with the error and that router, and the result of a call that returns is
  \<open>Inr\<close>. \<open>state_of\<close> is the router after the call in both cases, which is what the
  next call finds when the caller catches the error.
\<close>

datatype error = TypeError | SyntaxError

type_synonym 'a result = "(error \<times> router) + 'a"

definition state_of :: "router result \<Rightarrow> router" where
  "state_of res = (case res of Inl (e, this) \<Rightarrow> this | Inr this \<Rightarrow> this)"

text \<open>
  \<open>routes\<close> is the object literal \<open>{ }\<close>, so that \<open>this.routes[key]\<close> finds the
  members of \<open>Object.prototype\<close> under their names when the table has no entry of its
  own: a function or an object, which is truthy and has no method \<open>addHandler\<close>,
  \<open>removeHandler\<close> or \<open>dispatch\<close>.
\<close>

datatype 'a property = Missing | Inherited | Own 'a

definition object_prototype_keys :: "jsstring list" where
  "object_prototype_keys = map js
     [''constructor'', ''__defineGetter__'', ''__defineSetter__'', ''hasOwnProperty'',
      ''__lookupGetter__'', ''__lookupSetter__'', ''isPrototypeOf'', ''propertyIsEnumerable'',
      ''toString'', ''valueOf'', ''__proto__'', ''toLocaleString'']"

definition get_route :: "router \<Rightarrow> jsstring \<Rightarrow> route property" where
  "get_route this key =
     (case routes this key of
        Some r \<Rightarrow> Own r
      | None \<Rightarrow> if key \<in> set object_prototype_keys then Inherited else Missing)"

text \<open>
  \<open>this.sortedRoutes.sort (...)\<close> with the comparator of the source, the difference
  of the lengths of the two compiled expressions. \<open>Array.prototype.sort\<close> is stable
  (ECMAScript 2019), as \<open>sort_key\<close> is. The comparator is only ever called on keys
  that \<open>sortedRoutes\<close> holds, which are keys of \<open>routes\<close> (\<open>table_wf\<close> below), so that
  the case \<open>None\<close> of \<open>regex_length\<close> is never taken.
\<close>

definition regex_length :: "router \<Rightarrow> jsstring \<Rightarrow> nat" where
  "regex_length this key =
     (case routes this key of None \<Rightarrow> 0 | Some r \<Rightarrow> length (routeRegex r))"

definition sort_routes :: "router \<Rightarrow> router" where
  "sort_routes this = this\<lparr>sortedRoutes := sort_key (regex_length this) (sortedRoutes this)\<rparr>"

text \<open>
  \<open>create_route\<close> is the pair of statements
  \<open>this.routes[route] = new _Router.Route (route); this.sortedRoutes.push (route)\<close>,
  and \<open>modify_route\<close> is a method call that changes the route object stored under a
  key in place.
\<close>

definition create_route :: "jsstring \<Rightarrow> router \<Rightarrow> router" where
  "create_route route this =
     this\<lparr>routes := (routes this)(route \<mapsto> new_Route route),
          sortedRoutes := sortedRoutes this @ [route]\<rparr>"

definition modify_route :: "jsstring \<Rightarrow> (route \<Rightarrow> route) \<Rightarrow> router \<Rightarrow> router" where
  "modify_route key f this =
     (case routes this key of
        None \<Rightarrow> this
      | Some r \<Rightarrow> this\<lparr>routes := (routes this)(key \<mapsto> f r)\<rparr>)"

definition addRoute :: "jsstring \<Rightarrow> hid \<Rightarrow> hid option \<Rightarrow> router \<Rightarrow> router result" where
  "addRoute route onRoute onUnroute this =
     (let this1 = (if get_route this route = Missing
                   then sort_routes (create_route route this) else this)
      in case get_route this1 route of
           Own r \<Rightarrow>
             (case onUnroute of
                Some u \<Rightarrow>
                  Inr (modify_route route (addHandler u True \<circ> addHandler onRoute False) this1)
              | None \<Rightarrow> Inr (modify_route route (addHandler onRoute False) this1))
         | _ \<Rightarrow> Inl (TypeError, this1))"

text \<open>
  The argument of \<open>addRoutes\<close> and \<open>removeRoutes\<close> is an object; the list holds its
  keys and values in the order in which \<open>for (var i in routes)\<close> visits them. The
  loop of \<open>addRoutes\<close> pushes the new keys, and the one call of \<open>sort\<close> comes after the
  loop: when the loop raises, the keys pushed so far stay where they are.
\<close>

fun addRoutes_loop :: "(jsstring \<times> hid) list \<Rightarrow> router \<Rightarrow> router result" where
  "addRoutes_loop [] this = Inr this"
| "addRoutes_loop ((i, h) # rest) this =
     (let this1 = (if get_route this i = Missing then create_route i this else this)
      in case get_route this1 i of
           Own r \<Rightarrow> addRoutes_loop rest (modify_route i (addHandler h False) this1)
         | _ \<Rightarrow> Inl (TypeError, this1))"

definition addRoutes :: "(jsstring \<times> hid) list \<Rightarrow> router \<Rightarrow> router result" where
  "addRoutes rs this =
     (case addRoutes_loop rs this of Inl e \<Rightarrow> Inl e | Inr this1 \<Rightarrow> Inr (sort_routes this1))"

definition removeRoute :: "jsstring \<Rightarrow> hid \<Rightarrow> hid option \<Rightarrow> router \<Rightarrow> router result" where
  "removeRoute route onRoute onUnroute this =
     (case get_route this route of
        Missing \<Rightarrow> Inr this
      | Inherited \<Rightarrow> Inl (TypeError, this)
      | Own r \<Rightarrow>
          (case onUnroute of
             Some u \<Rightarrow>
               Inr (modify_route route (removeHandler u True \<circ> removeHandler onRoute False) this)
           | None \<Rightarrow> Inr (modify_route route (removeHandler onRoute False) this)))"

fun removeRoutes :: "(jsstring \<times> hid) list \<Rightarrow> router \<Rightarrow> router result" where
  "removeRoutes [] this = Inr this"
| "removeRoutes ((i, h) # rest) this =
     (case get_route this i of
        Missing \<Rightarrow> removeRoutes rest this
      | Inherited \<Rightarrow> Inl (TypeError, this)
      | Own r \<Rightarrow> removeRoutes rest (modify_route i (removeHandler h False) this))"

text \<open>
  A call of one of the four table operations. \<open>run_actions\<close> is a sequence of calls
  in one function body, which the first call that raises ends, and \<open>after_calls\<close> is
  the router after a sequence of calls of which each one is caught when it raises.
\<close>

datatype action =
    AddRoute jsstring hid "hid option"
  | AddRoutes "(jsstring \<times> hid) list"
  | RemoveRoute jsstring hid "hid option"
  | RemoveRoutes "(jsstring \<times> hid) list"

fun run_action :: "action \<Rightarrow> router \<Rightarrow> router result" where
  "run_action (AddRoute route onRoute onUnroute) this = addRoute route onRoute onUnroute this"
| "run_action (AddRoutes rs) this = addRoutes rs this"
| "run_action (RemoveRoute route onRoute onUnroute) this =
     removeRoute route onRoute onUnroute this"
| "run_action (RemoveRoutes rs) this = removeRoutes rs this"

fun run_actions :: "action list \<Rightarrow> router \<Rightarrow> router result" where
  "run_actions [] this = Inr this"
| "run_actions (a # as) this =
     (case run_action a this of Inl e \<Rightarrow> Inl e | Inr this1 \<Rightarrow> run_actions as this1)"

definition after_calls :: "action list \<Rightarrow> router \<Rightarrow> router" where
  "after_calls calls this = foldl (\<lambda>s a. state_of (run_action a s)) this calls"

section \<open>Dispatch\<close>

text \<open>
  What a handler does to the router: the table operations it calls, in order.
  Whatever else a handler does leaves the router as it is. The environment gives the
  body of every handler.
\<close>

type_synonym handler_env = "hid \<Rightarrow> action list"

definition log :: "event \<Rightarrow> router \<Rightarrow> router" where
  "log e this = this\<lparr>trace := trace this @ [e]\<rparr>"

text \<open>
  Modelled from the spec: \<open>dispatchEvent\<close> of the event dispatcher that \<open>Route\<close>
  extends is not in the source files. It calls the listeners of the channel, those
  registered when the event is emitted, in registration order, each with the
  arguments record; what a handler raises goes through to the caller.
\<close>

fun dispatchEvent ::
  "handler_env \<Rightarrow> hid list \<Rightarrow> bool \<Rightarrow> jsargs \<Rightarrow> router \<Rightarrow> router result" where
  "dispatchEvent henv [] is_unrouted eargs this = Inr this"
| "dispatchEvent henv (h # hs) is_unrouted eargs this =
     (case run_actions (henv h) (log (Invoke h is_unrouted eargs) this) of
        Inl e \<Rightarrow> Inl e
      | Inr this1 \<Rightarrow> dispatchEvent henv hs is_unrouted eargs this1)"

text \<open>
  The arguments record is an object literal: \<open>args[name] = v\<close> adds the property or
  overwrites it, except under the name \<open>__proto__\<close>, where the setter of
  \<open>Object.prototype\<close> ignores a value that is no object. \<open>match_at matches i\<close> is
  \<open>matches[i+1]\<close>, which is \<open>undefined\<close> past the last group, and \<open>to_string\<close> is the
  conversion that \<open>"_" + matches[i+1]\<close> applies.
\<close>

definition set_prop :: "jsargs \<Rightarrow> jsstring \<Rightarrow> jsval \<Rightarrow> jsargs" where
  "set_prop obj name v = (if name = js ''__proto__'' then obj else AList.update name v obj)"

definition match_at :: "jsstring list \<Rightarrow> nat \<Rightarrow> jsval" where
  "match_at matches i = (if i < length matches then Str (matches ! i) else Undefined)"

fun to_string :: "jsval \<Rightarrow> jsstring" where
  "to_string (Str s) = s"
| "to_string Undefined = js ''undefined''"
| "to_string (RouteRef k) = js ''[object Object]''"

text \<open>The \<open>for\<close> loop of \<open>dispatch\<close>: it returns \<open>args\<close> and \<open>str\<close>.\<close>

definition routed_args ::
  "jsstring \<Rightarrow> jsstring list \<Rightarrow> jsstring list \<Rightarrow> jsargs \<times> jsstring" where
  "routed_args key ps matches =
     foldl (\<lambda>(eargs, str) i.
              (set_prop eargs (ps ! i) (match_at matches i),
               str @ js ''_'' @ to_string (match_at matches i)))
       ([(js ''route'', RouteRef key)], []) [0 ..< length ps]"

text \<open>
  \<open>Route.dispatch\<close>, called on the route stored under \<open>key\<close> with the location
  \<open>route\<close>; it returns the flag that the source returns together with the new state.
  Calling it on a key that holds no route raises, as \<open>undefined.dispatch\<close> does, and
  so does \<open>route.match\<close> on a string that is no regular expression; what a handler
  raises leaves the fields of the route as they are when it is called.
\<close>

definition dispatch ::
  "regexp_engine \<Rightarrow> handler_env \<Rightarrow> jsstring \<Rightarrow> jsstring \<Rightarrow> router \<Rightarrow> (bool \<times> router) result" where
  "dispatch engine henv key route this0 =
     (case routes this0 key of
        None \<Rightarrow> Inl (TypeError, this0)
      | Some r \<Rightarrow>
         (let this = log (Dispatch key) this0 in
          case str_match engine route (routeRegex r) of
            Throws \<Rightarrow> Inl (SyntaxError, this)
          | Null \<Rightarrow>
              (let this1 = modify_route key (\<lambda>r. r\<lparr>s_args := None\<rparr>) this in
               (case (if active r
                      then dispatchEvent henv (unrouted r) True [(js ''route'', RouteRef key)] this1
                      else Inr this1) of
                  Inl e \<Rightarrow> Inl e
                | Inr this2 \<Rightarrow> Inr (False, modify_route key (\<lambda>r. r\<lparr>active := False\<rparr>) this2)))
          | Matches matches \<Rightarrow>
              (case routed_args key (params r) matches of (eargs, str) \<Rightarrow>
                (let this1 = modify_route key (\<lambda>r. r\<lparr>changed := (Some str \<noteq> s_args r)\<rparr>) this in
                 (case dispatchEvent henv (routed r) False eargs this1 of
                    Inl e \<Rightarrow> Inl e
                  | Inr this2 \<Rightarrow>
                      Inr (True,
                        modify_route key (\<lambda>r. r\<lparr>s_args := Some str, active := True\<rparr>) this2))))))"

text \<open>
  The \<open>for\<close> loop of \<open>onLocationChanged\<close>, from the index \<open>i\<close> on. It reads
  \<open>this.sortedRoutes\<close> and its length again in every pass, after the handlers of the
  pass before have run; handlers that keep adding routes can keep it running for ever,
  which is the result \<open>None\<close>. The first \<open>dispatch\<close> that raises ends the loop.
\<close>

partial_function (option) dispatch_pass ::
  "regexp_engine \<Rightarrow> handler_env \<Rightarrow> nat \<Rightarrow> router \<Rightarrow> router result option" where
  "dispatch_pass engine henv i this =
     (if i < length (sortedRoutes this)
      then (case dispatch engine henv (sortedRoutes this ! i) (location this) this of
              Inl e \<Rightarrow> Some (Inl e)
            | Inr (b, this1) \<Rightarrow> dispatch_pass engine henv (i + 1) this1)
      else Some (Inr this))"

section \<open>The router's entry points\<close>

text \<open>
  \<open>onLocationChanged\<close>; \<open>platform_hash\<close> is what the platform's \<open>location.hash\<close>
  holds when the handler runs.
\<close>

definition onLocationChanged ::
  "regexp_engine \<Rightarrow> handler_env \<Rightarrow> jsstring \<Rightarrow> router \<Rightarrow> router result option" where
  "onLocationChanged engine henv platform_hash this =
     (let cLocation = substr_from platform_hash 1;
          rLocation = realLocation this cLocation None
      in if cLocation \<noteq> rLocation then Some (Inr (log (Replace (js ''#'' @ rLocation)) this))
         else
           (let this1 = this\<lparr>location := cLocation, args := split_on 0x2F cLocation\<rparr>
            in if ignoreHashchangeEvent this1 > 0
               then Some (Inr (this1\<lparr>ignoreHashchangeEvent := ignoreHashchangeEvent this1 - 1\<rparr>))
               else dispatch_pass engine henv 0 this1))"

definition refresh ::
  "regexp_engine \<Rightarrow> handler_env \<Rightarrow> jsstring \<Rightarrow> router \<Rightarrow> router result option" where
  "refresh engine henv platform_hash this = onLocationChanged engine henv platform_hash this"

definition setRoute :: "jsstring \<Rightarrow> bool \<Rightarrow> router \<Rightarrow> router" where
  "setRoute route silent this =
     (let loc = realLocation this route None
      in if loc = location this then this
         else log (SetHash loc)
                (if silent
                 then this\<lparr>ignoreHashchangeEvent := ignoreHashchangeEvent this + 1\<rparr>
                 else this))"

section \<open>Auxiliary notions for the properties\<close>

text \<open>
  Two routes have the same core when they differ at most in their listeners, and a
  router \<open>grows\<close> into another when every route of the first is a route of the second
  with the same core and nothing else but the order sequence differs. This is all
  that the table operations do to the routes that are there already.
\<close>

definition same_core :: "route \<Rightarrow> route \<Rightarrow> bool" where
  "same_core r r' \<longleftrightarrow>
     routeRegex r' = routeRegex r \<and> rvalue r' = rvalue r \<and> params r' = params r \<and>
     s_args r' = s_args r \<and> active r' = active r \<and> changed r' = changed r"

definition grows :: "router \<Rightarrow> router \<Rightarrow> bool" where
  "grows s s' \<longleftrightarrow>
     (\<forall>k r. routes s k = Some r \<longrightarrow> (\<exists>r'. routes s' k = Some r' \<and> same_core r r')) \<and>
     location s' = location s \<and> args s' = args s \<and>
     ignoreHashchangeEvent s' = ignoreHashchangeEvent s \<and>
     alreadyAttached s' = alreadyAttached s \<and> trace s' = trace s"

text \<open>
  The \<open>:name\<close> tokens of a pattern, read from left to right as the spec describes
  them: a colon followed by a name, the name being the longest run of the characters
  \<open>! @ A-Z a-z 0-9 _ -\<close> after it. The compiler does not compute this list in one
  pass; \<open>params_new_Route\<close> below shows that its loop arrives at it.
\<close>

function pattern_tokens :: "jsstring \<Rightarrow> jsstring list" where
  "pattern_tokens [] = []"
| "pattern_tokens (x # xs) =
     (if x = 0x3A \<and> takeWhile is_name_char xs \<noteq> []
      then takeWhile is_name_char xs # pattern_tokens (dropWhile is_name_char xs)
      else pattern_tokens xs)"
  by pat_completeness auto
termination
  by (relation "measure length") (auto simp: length_dropWhile_le less_Suc_eq_le)

text \<open>
  The well-formed tables. \<open>compiled_length\<close> is the length of the expression that a
  key compiles to. \<open>table_wf\<close> says that the order sequence holds every key of
  \<open>routes\<close> once, that every route holds the expression its key compiles to, and that
  no key is a name of \<open>Object.prototype\<close>; every call of the router keeps this,
  whether it returns or raises (\<open>table_wf_after_calls\<close> and
  \<open>table_wf_onLocationChanged\<close> below). \<open>table_ok\<close> says in
  addition that the order sequence is in ascending compiled length.
\<close>

definition compiled_length :: "jsstring \<Rightarrow> nat" where
  "compiled_length key = length (fst (compileRoute key))"

definition table_wf :: "router \<Rightarrow> bool" where
  "table_wf this \<longleftrightarrow>
     distinct (sortedRoutes this) \<and>
     set (sortedRoutes this) = dom (routes this) \<and>
     (\<forall>k r. routes this k = Some r \<longrightarrow> routeRegex r = fst (compileRoute k)) \<and>
     set (sortedRoutes this) \<inter> set object_prototype_keys = {}"

definition table_ok :: "router \<Rightarrow> bool" where
  "table_ok this \<longleftrightarrow>
     sorted (map compiled_length (sortedRoutes this)) \<and>
     distinct (sortedRoutes this) \<and>
     set (sortedRoutes this) = dom (routes this) \<and>
     (\<forall>k r. routes this k = Some r \<longrightarrow> routeRegex r = fst (compileRoute k)) \<and>
     set (sortedRoutes this) \<inter> set object_prototype_keys = {}"

text \<open>
  The order in which a sequence of calls first names each key, as the spec's
  "original insertion order": \<open>addRoute\<close> names its key, \<open>addRoutes\<close> names the keys
  of its argument in turn. \<open>built this hist\<close> says that the table is well formed and
  that its order sequence is the stable sort of \<open>hist\<close> by compiled length;
  \<open>pending\<close> is the same while \<open>addRoutes\<close> has pushed keys that it has not sorted
  in yet.
\<close>

definition note_new :: "jsstring list \<Rightarrow> jsstring \<Rightarrow> jsstring list" where
  "note_new hist key = (if key \<in> set hist then hist else hist @ [key])"

fun keys_of :: "action \<Rightarrow> jsstring list" where
  "keys_of (AddRoute route onRoute onUnroute) = [route]"
| "keys_of (AddRoutes rs) = map fst rs"
| "keys_of (RemoveRoute route onRoute onUnroute) = []"
| "keys_of (RemoveRoutes rs) = []"

definition insertion_order :: "action list \<Rightarrow> jsstring list" where
  "insertion_order calls = foldl note_new [] (concat (map keys_of calls))"

definition built :: "router \<Rightarrow> jsstring list \<Rightarrow> bool" where
  "built this hist \<longleftrightarrow>
     table_ok this \<and> distinct hist \<and> sortedRoutes this = sort_key compiled_length hist"

definition pending :: "router \<Rightarrow> jsstring list \<Rightarrow> jsstring list \<Rightarrow> bool" where
  "pending this hist pushed \<longleftrightarrow>
     distinct (hist @ pushed) \<and>
     sortedRoutes this = sort_key compiled_length hist @ pushed \<and>
     set (hist @ pushed) = dom (routes this) \<and>
     (\<forall>k r. routes this k = Some r \<longrightarrow> routeRegex r = fst (compileRoute k)) \<and>
     set (hist @ pushed) \<inter> set object_prototype_keys = {}"

text \<open>
  Observations of a pass. \<open>dispatched\<close> reads off a log the keys on which \<open>dispatch\<close>
  was called, in call order. \<open>pass_calls\<close> is that list for one run of the loop of
  \<open>onLocationChanged\<close> that returns, \<open>pass_flags\<close> is the flag \<open>active\<close> of every entry
  of the order sequence after such a run, and \<open>notify_calls\<close> is the list for one
  call of \<open>onLocationChanged\<close>.
\<close>

fun dispatched :: "event list \<Rightarrow> jsstring list" where
  "dispatched [] = []"
| "dispatched (Dispatch k # es) = k # dispatched es"
| "dispatched (e # es) = dispatched es"

definition pass_calls :: "regexp_engine \<Rightarrow> handler_env \<Rightarrow> router \<Rightarrow> jsstring list option" where
  "pass_calls engine henv this =
     (case dispatch_pass engine henv 0 this of
        Some (Inr this') \<Rightarrow> Some (dispatched (drop (length (trace this)) (trace this')))
      | _ \<Rightarrow> None)"


definition notify_calls ::
  "regexp_engine \<Rightarrow> handler_env \<Rightarrow> jsstring \<Rightarrow> router \<Rightarrow> jsstring list option" where
  "notify_calls engine henv platform_hash this =
     (case onLocationChanged engine henv platform_hash this of
        Some (Inr this') \<Rightarrow> Some (dispatched (drop (length (trace this)) (trace this')))
      | _ \<Rightarrow> None)"

text \<open>
  The handlers registered on the routes of a router are inert when none of them calls
  a table operation.
\<close>

definition inert :: "handler_env \<Rightarrow> router \<Rightarrow> bool" where
  "inert henv this \<longleftrightarrow>
     (\<forall>k r h. routes this k = Some r \<longrightarrow> h \<in> set (routed r) \<union> set (unrouted r) \<longrightarrow> henv h = [])"

text \<open>
  Two routers for the worked examples. The first holds the route \<open>/a\<close> with a handler
  that adds the route \<open>/\<close>, and has the location \<open>/a\<close>; the second is the table of the
  spec's example, the routes \<open>/\<close>, \<open>/a\<close> and \<open>/a/:id\<close> added in that order.
\<close>

definition adding_env :: handler_env where
  "adding_env h = (if h = 0 then [AddRoute (js ''/'') 1 None] else [])"

definition adding_router :: router where
  "adding_router =
     (modify_route (js ''/a'') (addHandler 0 False) (create_route (js ''/a'') Router0))
       \<lparr>location := js ''/a''\<rparr>"

definition example_table :: router where
  "example_table =
     (case run_actions [AddRoute (js ''/'') 1 None, AddRoute (js ''/a'') 2 (Some 3),
                        AddRoute (js ''/a/:id'') 4 None] Router0 of
        Inr s \<Rightarrow> s
      | Inl e \<Rightarrow> Router0)"

text \<open>
  Three more for the worked examples. \<open>unsorted_table\<close> is what the call
  \<open>addRoutes ({'/long': h0, '/': h1, 'toString': h2})\<close> leaves of the initial router,
  and \<open>skipping_env\<close> gives the handler \<open>h0\<close> of its route \<open>/long\<close> a body that adds the
  route \<open>/zz\<close>; \<open>paren_table\<close> holds the routes \<open>/\<close>, \<open>/(\<close> and \<open>/long\<close>, added in
  that order.
\<close>

definition unsorted_table :: router where
  "unsorted_table =
     state_of (addRoutes [(js ''/long'', 0), (js ''/'', 1), (js ''toString'', 2)] Router0)"

definition skipping_env :: handler_env where
  "skipping_env h = (if h = 0 then [AddRoute (js ''/zz'') 3 None] else [])"



text \<open>Composition of calls for the worked examples: the next call runs unless one raised.\<close>

definition and_then :: "router result \<Rightarrow> (router \<Rightarrow> router result) \<Rightarrow> router result" where
  "and_then m f = (case m of Inl e \<Rightarrow> Inl e | Inr s \<Rightarrow> f s)"

definition dispatch_to ::
  "regexp_engine \<Rightarrow> handler_env \<Rightarrow> jsstring \<Rightarrow> jsstring \<Rightarrow> router \<Rightarrow> router result" where
  "dispatch_to engine henv key route this = map_sum id snd (dispatch engine henv key route this)"

text \<open>
  The expressions of the worked examples are in the fragment of \<open>rx_parse\<close> or have a
  group that is not terminated, so that their results do not depend on the engine;
  \<open>fragment_only\<close>, which rejects whatever it is asked, fills the parameter there.
\<close>

definition fragment_only :: regexp_engine where
  "fragment_only s regex = Throws"

section \<open>Properties of realLocation\<close>

lemmas rl_eval = rl_loop.simps rl_running_def realLocation_def rl_context_def substr_def
  substr_from_def indexOf_def lastIndexOf_def trim_def is_ws_def js_simps upt_rec

lemmas rl_eval2 = rl_eval rl_trace.simps

lemma rl_loop_trace:
  "conf' \<in> set (rl_trace c p conf) \<Longrightarrow> rl_loop c p conf = rl_loop c p conf'"
proof (induction c p conf rule: rl_trace.induct)
  case (1 c p conf)
  show ?case
  proof (cases "conf' = conf")
    case True then show ?thesis by simp
  next
    case False
    with "1.prems" have run: "rl_running c p conf"
      and mem: "conf' \<in> set (rl_trace c p (rl_step c p conf))"
      by (auto simp: rl_trace.simps [of c p conf] split: if_splits)
    from "1.IH" [OF run mem] show ?thesis
      using run by (simp add: rl_loop.simps [of c p conf])
  qed
qed

lemma prefix_single_drop: "prefix [x] (drop k p) \<longleftrightarrow> k < length p \<and> p ! k = x"
proof (cases "k < length p")
  case True
  then have "drop k p = p ! k # drop (Suc k) p"
    by (simp add: Cons_nth_drop_Suc)
  with True show ?thesis by auto
next
  case False
  then show ?thesis by simp
qed

lemma in_set_drop_nth:
  "x \<in> set (drop n xs) \<longleftrightarrow> (\<exists>i. n \<le> i \<and> i < length xs \<and> xs ! i = x)"
proof
  assume "x \<in> set (drop n xs)"
  then obtain k where "k < length (drop n xs)" "drop n xs ! k = x"
    by (auto simp: in_set_conv_nth)
  then have "n \<le> n + k \<and> n + k < length xs \<and> xs ! (n + k) = x"
    by auto
  then show "\<exists>i. n \<le> i \<and> i < length xs \<and> xs ! i = x" by blast
next
  assume "\<exists>i. n \<le> i \<and> i < length xs \<and> xs ! i = x"
  then obtain i where i: "n \<le> i" "i < length xs" "xs ! i = x" by blast
  then have "i - n < length (drop n xs)" "drop n xs ! (i - n) = x"
    by auto
  then show "x \<in> set (drop n xs)"
    by (metis nth_mem)
qed

lemma indexOf_char_None:
  "indexOf p [x] j = None \<longleftrightarrow> x \<notin> set (drop j p)"
  by (auto simp: indexOf_def find_None_iff prefix_single_drop in_set_drop_nth min_def)

lemma lastIndexOf_char_None:
  "lastIndexOf p [x] = None \<longleftrightarrow> x \<notin> set p"
  by (auto simp: lastIndexOf_def find_None_iff prefix_single_drop in_set_conv_nth)

lemma substr_1: "i < length c \<Longrightarrow> substr c i (Suc 0) = [c ! i]"
  by (simp add: substr_def take_Suc_conv_app_nth hd_drop_conv_nth take_Suc)

lemma rl_loop_single_fallback:
  assumes "i < length c" "j < length p" "c ! i \<notin> set (drop j p)"
  shows "rl_loop c p (S2, i, j, r) = (Halt, i, j, r @ drop j p @ drop i c)"
proof -
  have "indexOf p [c ! i] j = None"
    using assms(3) by (simp add: indexOf_char_None)
  then show ?thesis
    using assms(1,2)
    by (simp add: rl_loop.simps [of c p "(S2, i, j, r)"] rl_loop.simps [of c p "(Halt, i, j, x)" for x]
        rl_running_def substr_1 substr_from_def)
qed

lemma rl_loop_double_fallback:
  assumes "i < length c" "j < length p" "c ! i \<notin> set p"
  shows "rl_loop c p (S3, i, j, r) = (Halt, i, j, r @ drop i c)"
proof -
  have "lastIndexOf p [c ! i] = None"
    using assms(3) by (simp add: lastIndexOf_char_None)
  then show ?thesis
    using assms(1,2)
    by (simp add: rl_loop.simps [of c p "(S3, i, j, r)"] rl_loop.simps [of c p "(Halt, i, j, x)" for x]
        rl_running_def substr_1 substr_from_def)
qed

lemma rl_exits_bounded:
  "\<exists>n \<le> rl_measure c conf. \<not> rl_running c p ((rl_step c p ^^ n) conf) \<and>
       rl_loop c p conf = (rl_step c p ^^ n) conf"
proof (induction c p conf rule: rl_loop.induct)
  case (1 c p conf)
  show ?case
  proof (cases "rl_running c p conf")
    case False
    then have "\<not> rl_running c p ((rl_step c p ^^ 0) conf) \<and> rl_loop c p conf = (rl_step c p ^^ 0) conf"
      by (simp add: rl_loop.simps [of c p conf])
    then show ?thesis by blast
  next
    case True
    from "1.IH" [OF True] obtain n where n: "n \<le> rl_measure c (rl_step c p conf)"
      "\<not> rl_running c p ((rl_step c p ^^ n) (rl_step c p conf))"
      "rl_loop c p (rl_step c p conf) = (rl_step c p ^^ n) (rl_step c p conf)"
      by blast
    have "Suc n \<le> rl_measure c conf"
      using n(1) rl_step_decreases [OF True] by simp
    moreover have "\<not> rl_running c p ((rl_step c p ^^ Suc n) conf)"
      using n(2) by (simp add: funpow_swap1)
    moreover have "rl_loop c p conf = (rl_step c p ^^ Suc n) conf"
      using n(3) True by (simp add: rl_loop.simps [of c p conf] funpow_swap1)
    ultimately show ?thesis by blast
  qed
qed


lemma trim_id:
  assumes "L \<noteq> []" "\<not> is_ws (hd L)" "\<not> is_ws (last L)"
  shows "trim L = L"
proof -
  have "dropWhile is_ws L = L"
    using assms(2) by (simp add: dropWhile_eq_self_iff)
  moreover have "dropWhile is_ws (rev L) = rev L"
    using assms(1,3) by (simp add: dropWhile_eq_self_iff hd_rev)
  ultimately show ?thesis by (simp add: trim_def)
qed

lemma rl_loop_no_star:
  assumes "0x2A \<notin> set (drop i c)"
  shows "case rl_loop c p (S0, i, j, r) of (st, i', j', r') \<Rightarrow>
           (if st \<noteq> Halt then r' @ substr_from c i' else r') = r @ drop i c"
  using assms
proof (induction "length c - i" arbitrary: i j r)
  case 0
  then have "\<not> rl_running c p (S0, i, j, r)"
    by (simp add: rl_running_def)
  then show ?case
    by (simp add: rl_loop.simps [of c p "(S0, i, j, r)"] substr_from_def)
next
  case (Suc n)
  then have i: "i < length c" by simp
  show ?case
  proof (cases "j < length p")
    case False
    then have "\<not> rl_running c p (S0, i, j, r)"
      by (simp add: rl_running_def)
    then show ?thesis
      by (simp add: rl_loop.simps [of c p "(S0, i, j, r)"] substr_from_def)
  next
    case True
    have run: "rl_running c p (S0, i, j, r)"
      using i True by (simp add: rl_running_def)
    have ci: "c ! i \<noteq> 0x2A"
      using Suc.prems i by (metis Cons_nth_drop_Suc list.set_intros(1))
    have rest: "0x2A \<notin> set (drop (Suc i) c)"
      using Suc.prems i by (metis Cons_nth_drop_Suc list.set_intros(2))
    have dr: "drop i c = c ! i # drop (Suc i) c"
      using i by (simp add: Cons_nth_drop_Suc)
    show ?thesis
    proof (cases "c ! i = p ! j")
      case False
      then have "rl_step c p (S0, i, j, r) = (Halt, Suc i, Suc j, r @ drop i c)"
        using i True ci by (simp add: substr_1 js_simps substr_from_def)
      then show ?thesis
        using run
        by (simp add: rl_loop.simps [of c p "(S0, i, j, r)"]
            rl_loop.simps [of c p "(Halt, x, y, z)" for x y z] rl_running_def)
    next
      case eq: True
      then have step: "rl_step c p (S0, i, j, r) = (S0, Suc i, Suc j, r @ [p ! j])"
        using i True ci by (simp add: substr_1 js_simps)
      have "n = length c - Suc i" using Suc.hyps(2) by simp
      from Suc.hyps(1) [where i = "Suc i" and j = "Suc j" and r = "r @ [p ! j]", OF this rest]
      show ?thesis
        using run step eq by (simp add: rl_loop.simps [of c p "(S0, i, j, r)"] dr)
    qed
  qed
qed

lemma realLocation_no_star:
  assumes "0x2A \<notin> set L"
  shows "realLocation this L pLocation = trim L"
  using rl_loop_no_star [where i = 0 and c = L and p = "rl_context this pLocation" and j = 0 and r = "[]"] assms
  by (auto simp: realLocation_def split: prod.splits)

text \<open>
  Claim C1. Reconciling the template \<open>*/5\<close> against the context \<open>users/3\<close> returns
  \<open>users/5\<close>, and reconciling \<open>*/edit\<close> against \<open>a/b/c\<close> returns \<open>a/edit\<close>, whatever
  the router's own current location is.
\<close>

theorem realLocation_worked_examples:
  "realLocation this (js ''*/5'') (Some (js ''users/3'')) = js ''users/5'' \<and>
   realLocation this (js ''*/edit'') (Some (js ''a/b/c'')) = js ''a/edit''"
  by (simp add: rl_eval)

text \<open>
  Claim C8. \<open>realLocation\<close> returns a string for every template and context: its loop
  leaves after at most four passes through the \<open>switch\<close> per code unit of the template.
  When the loop comes to resolve a single wildcard (state 2) whose anchor, the code unit
  at \<open>i\<close> of the template, does not occur in the context at or after \<open>j\<close>, the result
  is what was built so far, then the context from \<open>j\<close> on, then the template from \<open>i\<close>
  on; when it comes to resolve a double wildcard (state 3) whose anchor occurs nowhere
  in the context, the result is what was built so far, then the template from \<open>i\<close> on.
  In both cases the result is trimmed, as every result is.
\<close>

theorem realLocation_total_with_fallback:
  "(\<exists>n \<le> 4 * length cLocation.
      \<not> rl_running cLocation (rl_context this pLocation)
          ((rl_step cLocation (rl_context this pLocation) ^^ n) (S0, 0, 0, [])) \<and>
      rl_loop cLocation (rl_context this pLocation) (S0, 0, 0, []) =
        (rl_step cLocation (rl_context this pLocation) ^^ n) (S0, 0, 0, [])) \<and>
   ((S2, i, j, r) \<in> set (rl_trace cLocation (rl_context this pLocation) (S0, 0, 0, [])) \<and>
    i < length cLocation \<and> j < length (rl_context this pLocation) \<and>
    cLocation ! i \<notin> set (drop j (rl_context this pLocation)) \<longrightarrow>
      realLocation this cLocation pLocation =
        trim (r @ drop j (rl_context this pLocation) @ drop i cLocation)) \<and>
   ((S3, i', j', r') \<in> set (rl_trace cLocation (rl_context this pLocation) (S0, 0, 0, [])) \<and>
    i' < length cLocation \<and> j' < length (rl_context this pLocation) \<and>
    cLocation ! i' \<notin> set (rl_context this pLocation) \<longrightarrow>
      realLocation this cLocation pLocation = trim (r' @ drop i' cLocation))"
proof (intro conjI impI)
  show "\<exists>n \<le> 4 * length cLocation.
      \<not> rl_running cLocation (rl_context this pLocation)
          ((rl_step cLocation (rl_context this pLocation) ^^ n) (S0, 0, 0, [])) \<and>
      rl_loop cLocation (rl_context this pLocation) (S0, 0, 0, []) =
        (rl_step cLocation (rl_context this pLocation) ^^ n) (S0, 0, 0, [])"
    using rl_exits_bounded [of cLocation "(S0, 0, 0, [])" "rl_context this pLocation"]
    by (simp add: rl_measure_def)
next
  assume a: "(S2, i, j, r) \<in> set (rl_trace cLocation (rl_context this pLocation) (S0, 0, 0, [])) \<and>
    i < length cLocation \<and> j < length (rl_context this pLocation) \<and>
    cLocation ! i \<notin> set (drop j (rl_context this pLocation))"
  then have "rl_loop cLocation (rl_context this pLocation) (S0, 0, 0, []) =
      (Halt, i, j, r @ drop j (rl_context this pLocation) @ drop i cLocation)"
    using rl_loop_trace rl_loop_single_fallback by metis
  then show "realLocation this cLocation pLocation =
        trim (r @ drop j (rl_context this pLocation) @ drop i cLocation)"
    by (simp add: realLocation_def)
next
  assume a: "(S3, i', j', r') \<in> set (rl_trace cLocation (rl_context this pLocation) (S0, 0, 0, [])) \<and>
    i' < length cLocation \<and> j' < length (rl_context this pLocation) \<and>
    cLocation ! i' \<notin> set (rl_context this pLocation)"
  then have "rl_loop cLocation (rl_context this pLocation) (S0, 0, 0, []) =
      (Halt, i', j', r' @ drop i' cLocation)"
    using rl_loop_trace rl_loop_double_fallback by metis
  then show "realLocation this cLocation pLocation = trim (r' @ drop i' cLocation)"
    by (simp add: realLocation_def)
qed

theorem realLocation_total_with_fallback_witness:
  "(S2, 1, 0, []) \<in> set (rl_trace (js ''*x'') (js ''abc'') (S0, 0, 0, [])) \<and>
   realLocation Router0 (js ''*x'') (Some (js ''abc'')) = js ''abcx'' \<and>
   (S3, 3, 1, js ''a'') \<in> set (rl_trace (js ''a**x'') (js ''abc'') (S0, 0, 0, [])) \<and>
   realLocation Router0 (js ''a**x'') (Some (js ''abc'')) = js ''ax''"
proof -
  have ctx: "rl_context Router0 (Some (js ''abc'')) = js ''abc''"
    by (simp add: rl_context_def js_simps)
  have t2: "(S2, 1, 0, []) \<in> set (rl_trace (js ''*x'') (js ''abc'') (S0, 0, 0, []))"
    by (simp add: rl_eval2)
  have t3: "(S3, 3, 1, js ''a'') \<in> set (rl_trace (js ''a**x'') (js ''abc'') (S0, 0, 0, []))"
    by (simp add: rl_eval2)
  have "realLocation Router0 (js ''*x'') (Some (js ''abc'')) = js ''abcx''"
    using realLocation_total_with_fallback [of "js ''*x''" Router0 "Some (js ''abc'')" 1 0 "[]"] t2
    by (simp add: ctx) (simp add: js_simps trim_def is_ws_def)
  moreover have "realLocation Router0 (js ''a**x'') (Some (js ''abc'')) = js ''ax''"
    using realLocation_total_with_fallback
      [where cLocation = "js ''a**x''" and this = Router0 and pLocation = "Some (js ''abc'')"
         and i' = 3 and j' = 1 and r' = "js ''a''"] t3
    by (simp add: ctx) (simp add: js_simps trim_def is_ws_def)
  ultimately show ?thesis using t2 t3 by simp
qed

text \<open>
  Claim C10. A non-empty location \<open>L\<close> without \<open>*\<close> and without white space at either
  end is a fixed point of \<open>realLocation\<close>, against itself as the context and against
  the router's current location, which is the context that \<open>onLocationChanged\<close>
  uses. So a notification for \<open>L\<close> takes the branch that commits \<open>L\<close>, never the one
  that calls \<open>location.replace\<close>.
\<close>

theorem plain_location_is_committed:
  assumes "L \<noteq> []" "0x2A \<notin> set L" "\<not> is_ws (hd L)" "\<not> is_ws (last L)"
  shows "realLocation this L (Some L) = L \<and> realLocation this L None = L \<and>
    onLocationChanged eng henv (js ''#'' @ L) this =
      (if ignoreHashchangeEvent this > 0
       then Some (Inr (this\<lparr>location := L, args := split_on 0x2F L,
                         ignoreHashchangeEvent := ignoreHashchangeEvent this - 1\<rparr>))
       else dispatch_pass eng henv 0 (this\<lparr>location := L, args := split_on 0x2F L\<rparr>))"
proof -
  have same: "realLocation this L pLocation = L" for pLocation
    using assms by (simp add: realLocation_no_star trim_id)
  have "substr_from (js ''#'' @ L) 1 = L"
    by (simp add: substr_from_def js_simps)
  then show ?thesis
    by (simp add: onLocationChanged_def same Let_def)
qed

theorem plain_location_is_committed_witness:
  "realLocation Router0 (js ''users/3'') (Some (js ''users/3'')) = js ''users/3'' \<and>
   realLocation Router0 (js ''users/3'') None = js ''users/3'' \<and>
   onLocationChanged fragment_only (\<lambda>h. []) (js ''#users/3'') Router0 =
     Some (Inr (Router0\<lparr>location := js ''users/3'', args := [js ''users'', js ''3'']\<rparr>))"
proof -
  have "js ''users/3'' \<noteq> []" "0x2A \<notin> set (js ''users/3'')"
    "\<not> is_ws (hd (js ''users/3''))" "\<not> is_ws (last (js ''users/3''))"
    by (simp_all add: js_simps is_ws_def)
  from plain_location_is_committed [OF this, where this = Router0 and henv = "\<lambda>h. []"
      and eng = fragment_only]
  show ?thesis
    by (simp add: js_simps Router0_def dispatch_pass.simps)
qed

section \<open>What the table operations and dispatchEvent leave alone\<close>

lemma same_core_refl: "same_core r r"
  by (simp add: same_core_def)

lemma same_core_trans: "same_core a b \<Longrightarrow> same_core b c \<Longrightarrow> same_core a c"
  by (simp add: same_core_def)

lemma grows_refl: "grows s s"
  by (auto simp: grows_def same_core_refl)

lemma grows_trans:
  assumes "grows a b" "grows b c"
  shows "grows a c"
proof -
  have "\<exists>r''. routes c k = Some r'' \<and> same_core r r''" if "routes a k = Some r" for k r
  proof -
    from assms(1) that obtain r' where r': "routes b k = Some r'" "same_core r r'"
      unfolding grows_def by blast
    from assms(2) r'(1) obtain r'' where "routes c k = Some r''" "same_core r' r''"
      unfolding grows_def by blast
    with r'(2) show ?thesis
      using same_core_trans by blast
  qed
  moreover have "location c = location a \<and> args c = args a \<and>
     ignoreHashchangeEvent c = ignoreHashchangeEvent a \<and>
     alreadyAttached c = alreadyAttached a \<and> trace c = trace a"
    using assms unfolding grows_def by simp
  ultimately show ?thesis
    unfolding grows_def by blast
qed

lemma same_core_addHandler: "same_core r (addHandler h u r)"
  by (simp add: same_core_def addHandler_def)

lemma same_core_removeHandler: "same_core r (removeHandler h u r)"
  by (simp add: same_core_def removeHandler_def)

lemma grows_modify_route:
  assumes "\<And>r. same_core r (f r)"
  shows "grows s (modify_route k f s)"
proof (cases "routes s k")
  case None
  then show ?thesis by (simp add: modify_route_def grows_refl)
next
  case (Some r0)
  then have "modify_route k f s = s\<lparr>routes := (routes s)(k \<mapsto> f r0)\<rparr>"
    by (simp add: modify_route_def)
  then show ?thesis
    using assms Some by (simp add: grows_def same_core_refl)
qed

lemma grows_create_route:
  "routes s k = None \<Longrightarrow> grows s (create_route k s)"
  by (auto simp: grows_def create_route_def same_core_refl)

lemma grows_sort_routes: "grows s (sort_routes s)"
  by (auto simp: grows_def sort_routes_def same_core_refl)

lemma get_route_Missing: "get_route s k = Missing \<Longrightarrow> routes s k = None"
  by (auto simp: get_route_def split: option.splits if_splits)

lemma same_core_comp:
  "(\<And>r. same_core r (f r)) \<Longrightarrow> (\<And>r. same_core r (g r)) \<Longrightarrow> same_core r ((g \<circ> f) r)"
  using same_core_trans by fastforce

lemma grows_addRoute: "addRoute k h u s = Inr s' \<Longrightarrow> grows s s'"
proof -
  assume a: "addRoute k h u s = Inr s'"
  define s1 where "s1 = (if get_route s k = Missing then sort_routes (create_route k s) else s)"
  have g1: "grows s s1"
    unfolding s1_def
    using grows_trans [OF grows_create_route grows_sort_routes] get_route_Missing grows_refl
    by auto
  have "grows s1 s'"
    using a unfolding addRoute_def s1_def [symmetric] Let_def
    by (auto split: property.splits option.splits
        intro!: grows_modify_route same_core_comp same_core_addHandler)
  with g1 show ?thesis by (rule grows_trans)
qed

lemma grows_addRoutes_loop: "addRoutes_loop rs s = Inr s' \<Longrightarrow> grows s s'"
proof (induction rs arbitrary: s)
  case Nil
  then show ?case by (simp add: grows_refl)
next
  case (Cons a rs)
  obtain k h where a: "a = (k, h)" by (cases a)
  define s1 where "s1 = (if get_route s k = Missing then create_route k s else s)"
  have g1: "grows s s1"
    unfolding s1_def using grows_create_route get_route_Missing grows_refl by auto
  from Cons.prems obtain r where
    "addRoutes_loop rs (modify_route k (addHandler h False) s1) = Inr s'"
    unfolding a addRoutes_loop.simps s1_def [symmetric] Let_def
    by (auto split: property.splits)
  from Cons.IH [OF this] have "grows (modify_route k (addHandler h False) s1) s'" .
  moreover have "grows s1 (modify_route k (addHandler h False) s1)"
    by (intro grows_modify_route same_core_addHandler)
  ultimately show ?case using g1 grows_trans by blast
qed

lemma grows_addRoutes: "addRoutes rs s = Inr s' \<Longrightarrow> grows s s'"
  unfolding addRoutes_def
  by (auto split: sum.splits dest!: grows_addRoutes_loop intro: grows_trans grows_sort_routes)

lemma grows_removeRoute: "removeRoute k h u s = Inr s' \<Longrightarrow> grows s s'"
  unfolding removeRoute_def
  by (auto split: property.splits option.splits simp: grows_refl
      intro!: grows_modify_route same_core_comp same_core_removeHandler)

lemma grows_removeRoutes: "removeRoutes rs s = Inr s' \<Longrightarrow> grows s s'"
proof (induction rs arbitrary: s)
  case Nil
  then show ?case by (simp add: grows_refl)
next
  case (Cons a rs)
  obtain k h where a: "a = (k, h)" by (cases a)
  show ?case
  proof (cases "get_route s k")
    case Missing
    with Cons show ?thesis by (simp add: a)
  next
    case Inherited
    with Cons show ?thesis by (simp add: a)
  next
    case (Own r)
    with Cons.prems have "removeRoutes rs (modify_route k (removeHandler h False) s) = Inr s'"
      by (simp add: a)
    from Cons.IH [OF this] grows_modify_route [of "removeHandler h False" s k]
    show ?thesis
      using same_core_removeHandler grows_trans by blast
  qed
qed

lemma grows_run_action: "run_action a s = Inr s' \<Longrightarrow> grows s s'"
  by (cases a) (auto dest: grows_addRoute grows_addRoutes grows_removeRoute grows_removeRoutes)

lemma grows_run_actions: "run_actions as s = Inr s' \<Longrightarrow> grows s s'"
proof (induction as arbitrary: s)
  case Nil
  then show ?case by (simp add: grows_refl)
next
  case (Cons a as)
  then show ?case
    by (auto split: sum.splits dest!: grows_run_action intro: grows_trans)
qed

text \<open>The table operations raise nothing but \<open>TypeError\<close>.\<close>

lemma addRoutes_loop_error: "addRoutes_loop rs s = Inl (e, s') \<Longrightarrow> e = TypeError"
  by (induction rs s rule: addRoutes_loop.induct)
     (auto simp: Let_def split: property.splits if_splits)

lemma removeRoutes_error: "removeRoutes rs s = Inl (e, s') \<Longrightarrow> e = TypeError"
  by (induction rs s rule: removeRoutes.induct) (auto split: property.splits)

lemma run_action_error: "run_action a s = Inl (e, s') \<Longrightarrow> e = TypeError"
  by (cases a)
     (auto simp: addRoute_def addRoutes_def removeRoute_def Let_def
        dest: addRoutes_loop_error removeRoutes_error
        split: property.splits option.splits sum.splits if_splits)

lemma run_actions_error: "run_actions as s = Inl (e, s') \<Longrightarrow> e = TypeError"
  by (induction as arbitrary: s) (auto split: sum.splits dest: run_action_error)

lemma grows_set_trace: "grows a b \<Longrightarrow> grows (a\<lparr>trace := t\<rparr>) (b\<lparr>trace := t\<rparr>)"
  by (simp add: grows_def)

lemma grows_trace: "grows a b \<Longrightarrow> trace b = trace a"
  by (simp add: grows_def)

lemma dispatchEvent_grows:
  "dispatchEvent henv hs u ea s = Inr s' \<Longrightarrow>
   grows (s\<lparr>trace := trace s @ map (\<lambda>h. Invoke h u ea) hs\<rparr>) s'"
proof (induction hs arbitrary: s)
  case Nil
  then show ?case by (simp add: grows_refl)
next
  case (Cons h hs)
  from Cons.prems obtain s1 where s1: "run_actions (henv h) (log (Invoke h u ea) s) = Inr s1"
    and rest: "dispatchEvent henv hs u ea s1 = Inr s'"
    by (auto split: sum.splits)
  have g1: "grows (log (Invoke h u ea) s) s1"
    using s1 by (rule grows_run_actions)
  then have t1: "trace s1 = trace s @ [Invoke h u ea]"
    by (simp add: grows_def log_def)
  have eq: "(log (Invoke h u ea) s)\<lparr>trace := trace s1 @ map (\<lambda>h. Invoke h u ea) hs\<rparr> =
     s\<lparr>trace := trace s @ map (\<lambda>h. Invoke h u ea) (h # hs)\<rparr>"
    by (simp add: log_def t1)
  have "grows ((log (Invoke h u ea) s)\<lparr>trace := trace s1 @ map (\<lambda>h. Invoke h u ea) hs\<rparr>)
     (s1\<lparr>trace := trace s1 @ map (\<lambda>h. Invoke h u ea) hs\<rparr>)"
    using g1 by (rule grows_set_trace)
  then have a: "grows (s\<lparr>trace := trace s @ map (\<lambda>h. Invoke h u ea) (h # hs)\<rparr>)
     (s1\<lparr>trace := trace s1 @ map (\<lambda>h. Invoke h u ea) hs\<rparr>)"
    unfolding eq .
  from grows_trans [OF a Cons.IH [OF rest]] show ?case .
qed

lemma dispatchEvent_error: "dispatchEvent henv hs u ea s = Inl (e, s') \<Longrightarrow> e = TypeError"
  by (induction hs arbitrary: s) (auto split: sum.splits dest: run_actions_error)

lemma dispatch_Throws:
  assumes "routes s key = Some r" "str_match eng L (routeRegex r) = Throws"
  shows "dispatch eng henv key L s = Inl (SyntaxError, log (Dispatch key) s)"
  using assms by (simp add: dispatch_def Let_def)

lemma dispatch_Null:
  assumes "routes s key = Some r" "str_match eng L (routeRegex r) = Null"
    and "dispatch eng henv key L s = Inr (b, s')"
  shows "\<exists>this2. grows (s\<lparr>routes := (routes s)(key \<mapsto> r\<lparr>s_args := None\<rparr>),
             trace := trace s @ Dispatch key #
               map (\<lambda>h. Invoke h True [(js ''route'', RouteRef key)])
                 (if active r then unrouted r else [])\<rparr>) this2 \<and>
           s' = modify_route key (\<lambda>r. r\<lparr>active := False\<rparr>) this2 \<and> \<not> b"
proof -
  define this1 where "this1 = modify_route key (\<lambda>r. r\<lparr>s_args := None\<rparr>) (log (Dispatch key) s)"
  have this1: "this1 = s\<lparr>routes := (routes s)(key \<mapsto> r\<lparr>s_args := None\<rparr>),
      trace := trace s @ [Dispatch key]\<rparr>"
    using assms(1) by (simp add: this1_def modify_route_def log_def)
  from assms obtain this2 where
    ev: "(if active r
          then dispatchEvent henv (unrouted r) True [(js ''route'', RouteRef key)] this1
          else Inr this1) = Inr this2"
    and s': "s' = modify_route key (\<lambda>r. r\<lparr>active := False\<rparr>) this2" and b: "\<not> b"
    unfolding dispatch_def this1_def Let_def
    by (auto split: sum.splits)
  have "grows (this1\<lparr>trace := trace this1 @
      map (\<lambda>h. Invoke h True [(js ''route'', RouteRef key)])
        (if active r then unrouted r else [])\<rparr>) this2"
  proof (cases "active r")
    case True
    with ev show ?thesis using dispatchEvent_grows by simp
  next
    case False
    with ev show ?thesis by (simp add: grows_refl)
  qed
  then show ?thesis
    using s' b by (auto simp: this1)
qed

lemma dispatch_Matches:
  assumes "routes s key = Some r" "str_match eng L (routeRegex r) = Matches caps"
    and "routed_args key (params r) caps = (eargs, str)"
    and "dispatch eng henv key L s = Inr (b, s')"
  shows "\<exists>this2. grows (s\<lparr>routes := (routes s)(key \<mapsto> r\<lparr>changed := (Some str \<noteq> s_args r)\<rparr>),
             trace := trace s @ Dispatch key # map (\<lambda>h. Invoke h False eargs) (routed r)\<rparr>) this2 \<and>
           s' = modify_route key (\<lambda>r. r\<lparr>s_args := Some str, active := True\<rparr>) this2 \<and> b"
proof -
  define this1 where
    "this1 = modify_route key (\<lambda>r. r\<lparr>changed := (Some str \<noteq> s_args r)\<rparr>) (log (Dispatch key) s)"
  have this1: "this1 = s\<lparr>routes := (routes s)(key \<mapsto> r\<lparr>changed := (Some str \<noteq> s_args r)\<rparr>),
      trace := trace s @ [Dispatch key]\<rparr>"
    using assms(1) by (simp add: this1_def modify_route_def log_def)
  from assms obtain this2 where
    ev: "dispatchEvent henv (routed r) False eargs this1 = Inr this2"
    and s': "s' = modify_route key (\<lambda>r. r\<lparr>s_args := Some str, active := True\<rparr>) this2" and b: "b"
    unfolding dispatch_def this1_def Let_def
    by (auto split: sum.splits)
  from dispatchEvent_grows [OF ev] show ?thesis
    using s' b by (auto simp: this1)
qed

lemma dispatch_error:
  assumes "routes s key = Some r" "dispatch eng henv key L s = Inl (e, s')"
  shows "e = TypeError \<or> (e = SyntaxError \<and> str_match eng L (routeRegex r) = Throws)"
proof (cases "str_match eng L (routeRegex r)")
  case Throws
  with assms show ?thesis by (simp add: dispatch_def Let_def)
next
  case Null
  with assms have "e = TypeError"
    unfolding dispatch_def Let_def
    by (simp split: sum.splits if_splits) (auto dest: dispatchEvent_error)
  then show ?thesis by simp
next
  case (Matches caps)
  obtain eargs str where "routed_args key (params r) caps = (eargs, str)"
    by (cases "routed_args key (params r) caps")
  with assms Matches have "e = TypeError"
    unfolding dispatch_def Let_def
    by (simp split: sum.splits) (auto dest: dispatchEvent_error)
  then show ?thesis by simp
qed

lemmas compile_eval = compileRoute_def new_Route_def compile_loop.simps replace_first_def
  indexOf_def grp_text_def is_name_char_def js_simps upt_rec

lemmas match_eval = str_match_def grp_text_def rx_special_def is_line_terminator_def js_simps upt_rec

lemmas table_eval = addRoute_def get_route_def object_prototype_keys_def create_route_def
  sort_routes_def modify_route_def regex_length_def addHandler_def Router0_def Let_def

lemmas dispatch_eval = dispatch_def dispatch_to_def and_then_def log_def routed_args_def set_prop_def
  match_at_def

section \<open>Properties of Route\<close>

lemma compile_loop_no_token: "token_exec P = None \<Longrightarrow> compile_loop P ps = (P, ps)"
  by (simp add: compile_loop.simps)

lemma set_remove_hashes: "set (remove_hashes P) \<subseteq> set P"
  by (induction P rule: remove_hashes.induct) auto

lemma rx_parse_literal:
  "set body \<inter> set rx_special = {} \<Longrightarrow> rx_parse body = Some (map Lit body)"
proof (induction body)
  case Nil
  then show ?case by simp
next
  case (Cons x xs)
  then have x: "x \<notin> set rx_special" and xs: "set xs \<inter> set rx_special = {}"
    by auto
  from x have "x \<noteq> 0x28" "x \<noteq> 0x2E"
    by (auto simp: rx_special_def js_simps)
  then have "\<not> prefix grp_text (x # xs)" "x \<noteq> 0x2E"
    by (auto simp: grp_text_def js_simps)
  with x Cons.IH [OF xs] show ?case by simp
qed

lemma rx_match_literal:
  "rx_match (map Lit body) L = (if prefix body L then Some [] else None)"
proof (induction body arbitrary: L)
  case Nil
  then show ?case by simp
next
  case (Cons x xs)
  then show ?case by (cases L) auto
qed

lemma str_match_literal:
  assumes "set body \<inter> set rx_special = {}"
  shows "str_match eng L (js ''^'' @ body) = (if prefix body L then Matches [] else Null)"
  using rx_parse_literal [OF assms]
  by (simp add: str_match_def js_simps rx_match_literal)

text \<open>
  The result does not depend on the engine for an expression of the fragment, nor
  for one with a group that is not terminated.
\<close>

lemma str_match_engine_free:
  assumes "rx_parse body \<noteq> None \<or> unterminated_group body"
  shows "str_match eng s (0x5E # body) = str_match eng' s (0x5E # body)"
  using assms by (auto simp: str_match_def split: option.splits)

lemma grows_routeD:
  "grows a b \<Longrightarrow> routes a k = Some r \<Longrightarrow> \<exists>r'. routes b k = Some r' \<and> same_core r r'"
  unfolding grows_def by blast

lemma dispatch_flag:
  assumes "routes s key = Some r" "str_match eng L (routeRegex r) \<noteq> Throws"
  shows "case dispatch eng henv key L s of
           Inl (e, s') \<Rightarrow> e = TypeError
         | Inr (b, s') \<Rightarrow> b = (str_match eng L (routeRegex r) \<noteq> Null) \<and>
                            map_option active (routes s' key) = Some b"
proof (cases "dispatch eng henv key L s")
  case (Inl raised)
  obtain e s' where raised: "raised = (e, s')" by (cases raised)
  with dispatch_error [OF assms(1) Inl [unfolded raised]] assms(2) Inl show ?thesis by simp
next
  case (Inr res)
  obtain b s' where res: "res = (b, s')" by (cases res)
  show ?thesis
  proof (cases "str_match eng L (routeRegex r)")
    case Throws
    with assms show ?thesis by simp
  next
    case Null
    from dispatch_Null [OF assms(1) Null Inr [unfolded res]] obtain this2 where
      g: "grows (s\<lparr>routes := (routes s)(key \<mapsto> r\<lparr>s_args := None\<rparr>),
             trace := trace s @ Dispatch key #
               map (\<lambda>h. Invoke h True [(js ''route'', RouteRef key)])
                 (if active r then unrouted r else [])\<rparr>) this2"
      and s': "s' = modify_route key (\<lambda>r. r\<lparr>active := False\<rparr>) this2" and b: "\<not> b"
      by blast
    from grows_routeD [OF g, of key] obtain r2 where "routes this2 key = Some r2"
      by auto
    then show ?thesis
      using Inr res s' b Null by (simp add: modify_route_def)
  next
    case (Matches caps)
    obtain eargs str where ra: "routed_args key (params r) caps = (eargs, str)"
      by (cases "routed_args key (params r) caps")
    from dispatch_Matches [OF assms(1) Matches ra Inr [unfolded res]] obtain this2 where
      g: "grows (s\<lparr>routes := (routes s)(key \<mapsto> r\<lparr>changed := (Some str \<noteq> s_args r)\<rparr>),
             trace := trace s @ Dispatch key # map (\<lambda>h. Invoke h False eargs) (routed r)\<rparr>) this2"
      and s': "s' = modify_route key (\<lambda>r. r\<lparr>s_args := Some str, active := True\<rparr>) this2"
      and b: "b"
      by blast
    from grows_routeD [OF g, of key] obtain r2 where "routes this2 key = Some r2"
      by auto
    then show ?thesis
      using Inr res s' b Matches by (simp add: modify_route_def)
  qed
qed

lemma compile_loop_exit: "token_exec (fst (compile_loop Q ps)) = None"
proof (induction Q ps rule: compile_loop.induct)
  case (1 route ps)
  show ?case
  proof (cases "token_exec route")
    case None
    then show ?thesis
      by (simp add: compile_loop.simps [of route ps])
  next
    case (Some m)
    obtain m0 m1 where m: "m = (m0, m1)" by (cases m)
    from "1.IH" [OF Some [unfolded m] refl] show ?thesis
      by (simp add: compile_loop.simps [of route ps] Some m)
  qed
qed

text \<open>
  Claim C3, as amended. For a pattern \<open>P\<close> without \<open>:name\<close> token and without any of
  the regular-expression syntax characters, the compiler returns \<open>^\<close> followed by \<open>P\<close>
  with every \<open>##\<close> removed and no parameter, and \<open>dispatch (L)\<close> matches if and only if
  \<open>L\<close> starts with \<open>P\<close> with every \<open>##\<close> removed; \<open>dispatch\<close> then returns that flag and
  stores it in \<open>active\<close>, unless a handler raises. The compiler raises for no
  pattern \<open>Q\<close>: it only rewrites the string, and its loop ends
  (\<open>replace_first_colons\<close>), leaving a string without \<open>:name\<close> token.
\<close>

theorem literal_pattern_matches_prefix:
  assumes "token_exec P = None" "set P \<inter> set rx_special = {}"
  shows "compileRoute P = (js ''^'' @ remove_hashes P, []) \<and>
    str_match eng L (routeRegex (new_Route P)) =
      (if prefix (remove_hashes P) L then Matches [] else Null) \<and>
    (routes this key = Some r \<and> routeRegex r = routeRegex (new_Route P) \<longrightarrow>
      (case dispatch eng henv key L this of
         Inl (e, this') \<Rightarrow> e = TypeError
       | Inr (b, this') \<Rightarrow> b = prefix (remove_hashes P) L \<and>
                              map_option active (routes this' key) = Some b)) \<and>
    token_exec (fst (compile_loop Q [])) = None"
proof -
  have c: "compileRoute P = (js ''^'' @ remove_hashes P, [])"
    using assms(1) by (simp add: compileRoute_def compile_loop_no_token)
  then have re: "routeRegex (new_Route P) = js ''^'' @ remove_hashes P"
    by (simp add: new_Route_def)
  have "set (remove_hashes P) \<inter> set rx_special = {}"
    using assms(2) set_remove_hashes by blast
  then have m: "str_match eng L (js ''^'' @ remove_hashes P) =
      (if prefix (remove_hashes P) L then Matches [] else Null)"
    by (rule str_match_literal)
  have "case dispatch eng henv key L this of
         Inl (e, this') \<Rightarrow> e = TypeError
       | Inr (b, this') \<Rightarrow> b = prefix (remove_hashes P) L \<and>
                              map_option active (routes this' key) = Some b"
    if r: "routes this key = Some r" "routeRegex r = routeRegex (new_Route P)"
  proof -
    have "str_match eng L (routeRegex r) \<noteq> Throws"
      using m r(2) re by simp
    from dispatch_flag [OF r(1) this, where henv = henv] show ?thesis
      using m r(2) re by (auto split: sum.splits prod.splits if_splits)
  qed
  with c m re show ?thesis by (simp add: compile_loop_exit)
qed

theorem literal_pattern_matches_prefix_witness:
  "token_exec (js ''/a##b'') = None \<and> set (js ''/a##b'') \<inter> set rx_special = {} \<and>
   compileRoute (js ''/a##b'') = (js ''^/ab'', []) \<and>
   str_match fragment_only (js ''/ab/c'') (routeRegex (new_Route (js ''/a##b''))) = Matches [] \<and>
   str_match fragment_only (js ''/a##b'') (routeRegex (new_Route (js ''/a##b''))) = Null \<and>
   map_sum id fst (dispatch fragment_only (\<lambda>h. []) (js ''/a##b'') (js ''/ab/c'')
     (create_route (js ''/a##b'') Router0)) = Inr True"
proof -
  have h: "token_exec (js ''/a##b'') = None" "set (js ''/a##b'') \<inter> set rx_special = {}"
    by (simp_all add: js_simps is_name_char_def rx_special_def)
  have r: "routes (create_route (js ''/a##b'') Router0) (js ''/a##b'') = Some (new_Route (js ''/a##b''))"
    by (simp add: create_route_def)
  note t = literal_pattern_matches_prefix [OF h, where this = "create_route (js ''/a##b'') Router0"
      and key = "js ''/a##b''" and r = "new_Route (js ''/a##b'')" and henv = "\<lambda>h. []" and eng = fragment_only]
  have "map_sum id fst (dispatch fragment_only (\<lambda>h. []) (js ''/a##b'') (js ''/ab/c'')
     (create_route (js ''/a##b'') Router0)) = Inr True"
    by (simp add: compile_eval match_eval dispatch_eval create_route_def Router0_def
        modify_route_def)
  moreover have "str_match fragment_only (js ''/ab/c'') (routeRegex (new_Route (js ''/a##b''))) = Matches []"
    using t [where L = "js ''/ab/c''"] by (simp add: js_simps)
  moreover have "str_match fragment_only (js ''/a##b'') (routeRegex (new_Route (js ''/a##b''))) = Null"
    using t [where L = "js ''/a##b''"] by (simp add: js_simps)
  moreover have "compileRoute (js ''/a##b'') = (js ''^/ab'', [])"
    using t [where L = "[]"] by (simp add: js_simps)
  ultimately show ?thesis using h by simp
qed

text \<open>
  Claim C3 as stated fails: the pattern \<open>a##b\<close> has no \<open>:name\<close> token and matches the
  location \<open>ab\<close>, which does not start with \<open>a##b\<close>; and the pattern \<open>a.b\<close> has none
  and matches \<open>axb\<close>, because the pattern is handed to the platform as a regular
  expression.
\<close>

theorem literal_prefix_counterexample:
  "token_exec (js ''a##b'') = None \<and>
   str_match fragment_only (js ''ab'') (routeRegex (new_Route (js ''a##b''))) = Matches [] \<and>
   map_sum id fst (dispatch fragment_only (\<lambda>h. []) (js ''a##b'') (js ''ab'')
     (create_route (js ''a##b'') Router0)) = Inr True \<and>
   \<not> prefix (js ''a##b'') (js ''ab'') \<and>
   token_exec (js ''a.b'') = None \<and>
   str_match fragment_only (js ''axb'') (routeRegex (new_Route (js ''a.b''))) = Matches [] \<and>
   map_sum id fst (dispatch fragment_only (\<lambda>h. []) (js ''a.b'') (js ''axb'')
     (create_route (js ''a.b'') Router0)) = Inr True \<and>
   \<not> prefix (js ''a.b'') (js ''axb'')"
  by (simp add: compile_eval match_eval dispatch_eval create_route_def Router0_def
      modify_route_def)

text \<open>
  Claim C2. The flag \<open>changed\<close> compares the strings that join the captured values
  with \<open>_\<close>, and a captured value can hold \<open>_\<close> itself. The route \<open>/:a/:b\<close> captures
  \<open>a_b\<close> and \<open>c\<close> from the location \<open>/a_b/c\<close>, and \<open>a\<close> and \<open>b_c\<close> from \<open>/a/b_c\<close>; both
  join to \<open>_a_b_c\<close>, so that after the two dispatches in a row \<open>changed\<close> is false
  although the captured values differ.
\<close>

theorem changed_flag_separator_collision:
  "str_match fragment_only (js ''/a_b/c'') (routeRegex (new_Route (js ''/:a/:b''))) = Matches [js ''a_b'', js ''c''] \<and>
   str_match fragment_only (js ''/a/b_c'') (routeRegex (new_Route (js ''/:a/:b''))) = Matches [js ''a'', js ''b_c''] \<and>
   map_sum id (\<lambda>s. map_option (\<lambda>r. (active r, changed r)) (routes s (js ''/:a/:b'')))
     (and_then (and_then (addRoute (js ''/:a/:b'') 0 None Router0)
        (dispatch_to fragment_only (\<lambda>h. []) (js ''/:a/:b'') (js ''/a_b/c'')))
        (dispatch_to fragment_only (\<lambda>h. []) (js ''/:a/:b'') (js ''/a/b_c''))) = Inr (Some (True, False))"
  by (simp add: table_eval compile_eval dispatch_eval match_eval)

lemma pattern_tokens_none: "token_exec s = None \<Longrightarrow> pattern_tokens s = []"
  by (induction s) (auto split: if_splits)

lemma indexOf_Cons:
  "indexOf (x # xs) t 0 = (if prefix t (x # xs) then Some 0 else map_option Suc (indexOf xs t 0))"
proof -
  have find_Suc: "find P (map Suc ks) = map_option Suc (find (P \<circ> Suc) ks)" for P and ks :: "nat list"
    by (induction ks) auto
  have "[0 ..< Suc (length (x # xs))] = 0 # map Suc [0 ..< Suc (length xs)]"
    by (simp add: upt_conv_Cons map_Suc_upt del: upt_Suc)
  then show ?thesis
    by (simp add: indexOf_def find_Suc comp_def del: upt_Suc)
qed

lemma token_exec_name:
  "token_exec s = Some (m0, m1) \<Longrightarrow> m0 = 0x3A # m1 \<and> m1 \<noteq> [] \<and> is_name_char (hd m1)"
proof (induction s)
  case Nil
  then show ?case by simp
next
  case (Cons x xs)
  show ?case
  proof (cases "x = 0x3A \<and> takeWhile is_name_char xs \<noteq> []")
    case True
    then have "hd (takeWhile is_name_char xs) \<in> set (takeWhile is_name_char xs)"
      by simp
    then have "is_name_char (hd (takeWhile is_name_char xs))"
      by (rule set_takeWhileD [THEN conjunct2])
    with True Cons.prems show ?thesis by auto
  next
    case False
    with Cons show ?thesis by auto
  qed
qed

lemma pattern_tokens_grp: "pattern_tokens (grp_text @ rest) = pattern_tokens rest"
  by (simp add: grp_text_def js_simps)

lemma takeWhile_replace_first:
  assumes "takeWhile is_name_char xs = []" "token_exec xs = Some (m0, m1)"
  shows "takeWhile is_name_char (replace_first xs m0 grp_text) = []"
proof -
  from token_exec_occurs [OF assms(2)] indexOf_0_Some obtain k
    where k: "indexOf xs m0 0 = Some k" by blast
  from assms have xs: "xs \<noteq> []" "\<not> is_name_char (hd xs)"
    by (auto simp: takeWhile_eq_Nil_iff)
  have g: "\<not> is_name_char (hd grp_text)" "grp_text \<noteq> []"
    by (simp_all add: grp_text_def js_simps is_name_char_def)
  have "hd (replace_first xs m0 grp_text) = (if k = 0 then hd grp_text else hd xs)"
    using k xs(1) g(2) by (cases k) (auto simp: replace_first_def hd_append)
  moreover have "replace_first xs m0 grp_text \<noteq> []"
    using k g(2) by (simp add: replace_first_def)
  ultimately show ?thesis
    using xs(2) g(1) by (auto simp: takeWhile_eq_Nil_iff)
qed

lemma pattern_tokens_replace:
  "token_exec s = Some (m0, m1) \<Longrightarrow>
   pattern_tokens s = m1 # pattern_tokens (replace_first s m0 grp_text)"
proof (induction s)
  case Nil
  then show ?case by simp
next
  case (Cons x xs)
  show ?case
  proof (cases "x = 0x3A \<and> takeWhile is_name_char xs \<noteq> []")
    case True
    with Cons.prems have m: "m0 = x # takeWhile is_name_char xs" "m1 = takeWhile is_name_char xs"
      by auto
    have "prefix m0 (x # xs)"
      by (simp add: m takeWhile_is_prefix)
    then have "indexOf (x # xs) m0 0 = Some 0"
      by (simp add: indexOf_Cons)
    then have "replace_first (x # xs) m0 grp_text = grp_text @ dropWhile is_name_char xs"
      by (simp add: replace_first_def m dropWhile_eq_drop)
    with True show ?thesis
      by (simp add: pattern_tokens_grp m)
  next
    case False
    with Cons.prems have te: "token_exec xs = Some (m0, m1)" by auto
    from token_exec_name [OF te] have m0: "m0 = 0x3A # m1" "m1 \<noteq> []" "is_name_char (hd m1)"
      by auto
    have np: "\<not> prefix m0 (x # xs)"
    proof
      assume "prefix m0 (x # xs)"
      then have x: "x = 0x3A" and "prefix m1 xs" by (auto simp: m0)
      then obtain rest where "xs = m1 @ rest" by (auto simp: prefix_def)
      with m0 have "takeWhile is_name_char xs \<noteq> []"
        by (cases m1) auto
      with x False show False by simp
    qed
    from token_exec_occurs [OF te] indexOf_0_Some obtain k
      where k: "indexOf xs m0 0 = Some k" by blast
    have rf: "replace_first (x # xs) m0 grp_text = x # replace_first xs m0 grp_text"
      using np k by (simp add: replace_first_def indexOf_Cons)
    have "pattern_tokens (x # replace_first xs m0 grp_text) =
        pattern_tokens (replace_first xs m0 grp_text)"
    proof (cases "x = 0x3A")
      case True
      with False have "takeWhile is_name_char xs = []" by simp
      from takeWhile_replace_first [OF this te] show ?thesis by simp
    next
      case False
      then show ?thesis by simp
    qed
    with Cons.IH [OF te] False rf show ?thesis by auto
  qed
qed

lemma compile_loop_tokens: "snd (compile_loop route ps) = ps @ pattern_tokens route"
proof (induction route ps rule: compile_loop.induct)
  case (1 route ps)
  show ?case
  proof (cases "token_exec route")
    case None
    then show ?thesis
      by (simp add: compile_loop.simps [of route ps] pattern_tokens_none)
  next
    case (Some m)
    obtain m0 m1 where m: "m = (m0, m1)" by (cases m)
    from "1.IH" [OF Some [unfolded m] refl] pattern_tokens_replace [OF Some [unfolded m]]
    show ?thesis
      by (simp add: compile_loop.simps [of route ps] Some m)
  qed
qed

lemma params_new_Route: "params (new_Route P) = pattern_tokens P"
  using compile_loop_tokens [of P "[]"]
  by (auto simp: new_Route_def compileRoute_def split: prod.splits)

lemma routed_args_upto:
  "n \<le> length ps \<Longrightarrow> i < n \<Longrightarrow> ps ! i \<noteq> js ''__proto__'' \<Longrightarrow>
   (\<forall>j. i < j \<and> j < n \<longrightarrow> ps ! j \<noteq> ps ! i) \<Longrightarrow>
   map_of (fst (foldl (\<lambda>(eargs, str) i.
              (set_prop eargs (ps ! i) (match_at matches i),
               str @ js ''_'' @ to_string (match_at matches i)))
       ([(js ''route'', RouteRef key)], []) [0 ..< n])) (ps ! i) = Some (match_at matches i)"
proof (induction n)
  case 0
  then show ?case by simp
next
  case (Suc n)
  let ?acc = "foldl (\<lambda>(eargs, str) i.
              (set_prop eargs (ps ! i) (match_at matches i),
               str @ js ''_'' @ to_string (match_at matches i)))
       ([(js ''route'', RouteRef key)], []) [0 ..< n]"
  obtain ea st where acc: "?acc = (ea, st)" by (cases ?acc)
  show ?case
  proof (cases "i = n")
    case True
    with Suc.prems show ?thesis
      by (simp add: acc) (simp add: set_prop_def update_conv')
  next
    case False
    with Suc.prems have i: "i < n" and ne: "ps ! n \<noteq> ps ! i" by auto
    from Suc.prems i have "map_of (fst ?acc) (ps ! i) = Some (match_at matches i)"
      by (intro Suc.IH) auto
    with ne show ?thesis
      by (simp add: acc) (simp add: set_prop_def update_conv')
  qed
qed

text \<open>
  Claim C9, as amended. The compiled list of parameter names is the list of the
  \<open>:name\<close> tokens of the pattern from left to right, whatever the names are and with
  their repetitions. The arguments record maps a parameter name other than
  \<open>__proto__\<close> to \<open>matches[i+1]\<close>, where \<open>i\<close> is the position of the last occurrence
  of the name in the list: its own position when the name occurs once. That record
  goes to every listener of the channel \<open>routed\<close>, in registration order.
\<close>

theorem params_in_pattern_order:
  "params (new_Route P) = pattern_tokens P \<and>
   (i < length ps \<and> ps ! i \<noteq> js ''__proto__'' \<and>
    (\<forall>j. i < j \<and> j < length ps \<longrightarrow> ps ! j \<noteq> ps ! i) \<longrightarrow>
      map_of (fst (routed_args key ps matches)) (ps ! i) = Some (match_at matches i)) \<and>
   (routes this key = Some r \<and> str_match eng L (routeRegex r) = Matches matches \<and>
    dispatch eng henv key L this = Inr (b, this') \<longrightarrow>
      trace this' = trace this @ Dispatch key #
        map (\<lambda>h. Invoke h False (fst (routed_args key (params r) matches))) (routed r))"
proof (intro conjI impI)
  show "params (new_Route P) = pattern_tokens P"
    by (rule params_new_Route)
next
  assume "i < length ps \<and> ps ! i \<noteq> js ''__proto__'' \<and>
    (\<forall>j. i < j \<and> j < length ps \<longrightarrow> ps ! j \<noteq> ps ! i)"
  then show "map_of (fst (routed_args key ps matches)) (ps ! i) = Some (match_at matches i)"
    unfolding routed_args_def by (intro routed_args_upto) auto
next
  assume a: "routes this key = Some r \<and> str_match eng L (routeRegex r) = Matches matches \<and>
    dispatch eng henv key L this = Inr (b, this')"
  obtain eargs str where ra: "routed_args key (params r) matches = (eargs, str)"
    by (cases "routed_args key (params r) matches")
  from a dispatch_Matches [OF _ _ ra] obtain this2 where
    g: "grows (this\<lparr>routes := (routes this)(key \<mapsto> r\<lparr>changed := (Some str \<noteq> s_args r)\<rparr>),
             trace := trace this @ Dispatch key # map (\<lambda>h. Invoke h False eargs) (routed r)\<rparr>) this2"
    and s': "this' = modify_route key (\<lambda>r. r\<lparr>s_args := Some str, active := True\<rparr>) this2"
    by blast
  have "trace this' = trace this2"
    by (simp add: s' modify_route_def split: option.splits)
  with grows_trace [OF g] show "trace this' = trace this @ Dispatch key #
        map (\<lambda>h. Invoke h False (fst (routed_args key (params r) matches))) (routed r)"
    by (simp add: ra)
qed

theorem params_in_pattern_order_witness:
  "params (new_Route (js ''/:b/x:a'')) = [js ''b'', js ''a''] \<and>
   map_of (fst (routed_args (js ''k'') [js ''b'', js ''a''] [js ''1'', js ''2''])) (js ''b'') =
     Some (Str (js ''1'')) \<and>
   map_sum id (trace \<circ> snd) (dispatch fragment_only (\<lambda>h. []) (js ''/:b/x:a'') (js ''/1/x2'')
     (modify_route (js ''/:b/x:a'') (addHandler 7 False) (create_route (js ''/:b/x:a'') Router0))) =
     Inr [Dispatch (js ''/:b/x:a''),
          Invoke 7 False [(js ''route'', RouteRef (js ''/:b/x:a'')),
            (js ''b'', Str (js ''1'')), (js ''a'', Str (js ''2''))]]"
proof -
  define s where "s = modify_route (js ''/:b/x:a'') (addHandler 7 False)
    (create_route (js ''/:b/x:a'') Router0)"
  define r where "r = addHandler 7 False (new_Route (js ''/:b/x:a''))"
  have r: "routes s (js ''/:b/x:a'') = Some r"
    by (simp add: s_def r_def modify_route_def create_route_def)
  have re: "routeRegex r = js ''^/([^/]+)/x([^/]+)''" "params r = [js ''b'', js ''a'']"
    "routed r = [7]"
    by (simp_all add: r_def addHandler_def compile_eval)
  have m: "str_match fragment_only (js ''/1/x2'') (routeRegex r) = Matches [js ''1'', js ''2'']"
    by (simp add: re match_eval)
  obtain b s' where d: "dispatch fragment_only (\<lambda>h. []) (js ''/:b/x:a'') (js ''/1/x2'') s = Inr (b, s')"
    using r re m by (simp add: dispatch_def Let_def routed_args_def split: prod.splits)
  note t = params_in_pattern_order [where P = "js ''/:b/x:a''" and ps = "[js ''b'', js ''a'']"
      and i = 0 and key = "js ''k''" and matches = "[js ''1'', js ''2'']"]
  have p: "params (new_Route (js ''/:b/x:a'')) = [js ''b'', js ''a'']"
    by (simp add: compile_eval)
  have a: "map_of (fst (routed_args (js ''k'') [js ''b'', js ''a''] [js ''1'', js ''2''])) (js ''b'') =
     Some (Str (js ''1''))"
    using t [THEN conjunct2, THEN conjunct1]
    by (auto simp: js_simps match_at_def less_Suc_eq)
  have "trace s' = trace s @ Dispatch (js ''/:b/x:a'') #
        map (\<lambda>h. Invoke h False (fst (routed_args (js ''/:b/x:a'') (params r) [js ''1'', js ''2'']))) (routed r)"
    using params_in_pattern_order [where this = s and key = "js ''/:b/x:a''" and r = r
        and L = "js ''/1/x2''" and matches = "[js ''1'', js ''2'']" and henv = "\<lambda>h. []"
        and b = b and this' = s'] r m d
    by simp
  then have "trace s' = [Dispatch (js ''/:b/x:a''),
          Invoke 7 False [(js ''route'', RouteRef (js ''/:b/x:a'')),
            (js ''b'', Str (js ''1'')), (js ''a'', Str (js ''2''))]]"
    by (simp add: re routed_args_def set_prop_def match_at_def js_simps upt_rec s_def
        modify_route_def create_route_def Router0_def)
  with d p a show ?thesis
    by (simp add: s_def [symmetric])
qed

text \<open>
  Claim C9 as stated fails for a name that occurs twice: the pattern \<open>/:a/:a\<close> has the
  parameters \<open>a\<close>, \<open>a\<close> and captures \<open>1\<close> and \<open>2\<close> from \<open>/1/2\<close>, and the record that the
  handler receives maps \<open>a\<close> to \<open>2\<close>, which is not the capture at position 0. And
  for the pattern \<open>/:__proto__\<close> the record holds no entry under the parameter name.
\<close>

theorem duplicate_param_counterexample:
  "params (new_Route (js ''/:a/:a'')) = [js ''a'', js ''a''] \<and>
   str_match fragment_only (js ''/1/2'') (routeRegex (new_Route (js ''/:a/:a''))) = Matches [js ''1'', js ''2''] \<and>
   map_of (fst (routed_args (js ''/:a/:a'') [js ''a'', js ''a''] [js ''1'', js ''2''])) (js ''a'') =
     Some (Str (js ''2'')) \<and>
   map_sum id (trace \<circ> snd) (dispatch fragment_only (\<lambda>h. []) (js ''/:a/:a'') (js ''/1/2'')
     (modify_route (js ''/:a/:a'') (addHandler 7 False) (create_route (js ''/:a/:a'') Router0))) =
     Inr [Dispatch (js ''/:a/:a''),
          Invoke 7 False [(js ''route'', RouteRef (js ''/:a/:a'')), (js ''a'', Str (js ''2''))]] \<and>
   params (new_Route (js ''/:__proto__'')) = [js ''__proto__''] \<and>
   fst (routed_args (js ''/:__proto__'') [js ''__proto__''] [js ''x'']) =
     [(js ''route'', RouteRef (js ''/:__proto__''))]"
  by (simp add: compile_eval match_eval dispatch_eval create_route_def Router0_def
      modify_route_def addHandler_def)

section \<open>Properties of the route table\<close>

lemma sort_key_agree:
  "(\<And>x. x \<in> set xs \<Longrightarrow> f x = g x) \<Longrightarrow> sort_key f xs = sort_key g xs"
proof (induction xs)
  case Nil
  then show ?case by simp
next
  case (Cons x xs)
  have ins: "(\<And>y. y \<in> set ys \<Longrightarrow> f y = g y) \<Longrightarrow> f x = g x \<Longrightarrow>
      insort_key f x ys = insort_key g x ys" for ys
    by (induction ys) auto
  have "insort_key f x (sort_key g xs) = insort_key g x (sort_key g xs)"
    by (rule ins) (use Cons.prems in auto)
  moreover have "sort_key f xs = sort_key g xs"
    by (rule Cons.IH) (use Cons.prems in auto)
  ultimately show ?case by simp
qed

lemma sort_key_presorted:
  "sort_key f (sort_key f xs @ ys) = sort_key f (xs @ ys)"
proof (rule properties_for_sort_key)
  show "mset (sort_key f (xs @ ys)) = mset (sort_key f xs @ ys)"
    by simp
  show "sorted (map f (sort_key f (xs @ ys)))"
    by simp
next
  fix k
  have "filter (\<lambda>x. f x = f k) (sort_key f (xs @ ys)) = filter (\<lambda>x. f x = f k) (sort_key f xs @ ys)"
    by (simp add: sort_key_stable)
  moreover have "(\<lambda>x. f k = f x) = (\<lambda>x. f x = f k)"
    by auto
  ultimately show "filter (\<lambda>x. f k = f x) (sort_key f (xs @ ys)) =
      filter (\<lambda>x. f k = f x) (sort_key f xs @ ys)"
    by simp
qed

lemma subseq_sort_key_append:
  assumes "set xs \<inter> set ys = {}"
  shows "subseq (sort_key f xs) (sort_key f (xs @ ys))"
proof -
  have "filter (\<lambda>k. k \<in> set xs) (xs @ ys) = xs"
    using assms by (auto simp: filter_empty_conv)
  then have "filter (\<lambda>k. k \<in> set xs) (sort_key f (xs @ ys)) = sort_key f xs"
    by (simp only: filter_sort)
  then show ?thesis
    by (metis subseq_filter_left)
qed

lemma subseq_drop_set:
  "subseq xs ys \<Longrightarrow> set (drop i xs) \<subseteq> set (drop i ys)"
proof (induction arbitrary: i rule: list_emb.induct)
  case (list_emb_Nil ys)
  then show ?case by simp
next
  case (list_emb_Cons xs ys y)
  show ?case
  proof (cases i)
    case 0
    with list_emb_Cons.IH [of 0] show ?thesis by auto
  next
    case (Suc n)
    have "set (drop (Suc n) xs) \<subseteq> set (drop n xs)"
      by (simp add: set_drop_subset_set_drop)
    with list_emb_Cons.IH [of n] Suc show ?thesis by auto
  qed
next
  case (list_emb_Cons2 x y xs ys)
  show ?case
  proof (cases i)
    case 0
    with list_emb_Cons2.IH [of 0] list_emb_Cons2.hyps show ?thesis by auto
  next
    case (Suc n)
    with list_emb_Cons2.IH [of n] show ?thesis by auto
  qed
qed

lemma note_new_extends: "\<exists>more. foldl note_new hist ks = hist @ more"
proof (induction ks arbitrary: hist)
  case Nil
  then show ?case by simp
next
  case (Cons k ks)
  from Cons [of "note_new hist k"] obtain more
    where "foldl note_new (note_new hist k) ks = note_new hist k @ more" by blast
  moreover have "note_new hist k = hist \<or> note_new hist k = hist @ [k]"
    by (simp add: note_new_def)
  ultimately show ?case by auto
qed

lemma distinct_note_new: "distinct hist \<Longrightarrow> distinct (note_new hist k)"
  by (simp add: note_new_def)

lemma regex_new_Route: "routeRegex (new_Route k) = fst (compileRoute k)"
  by (simp add: new_Route_def split: prod.splits)

lemma built_pending: "built s hist \<Longrightarrow> pending s hist []"
  by (auto simp: built_def table_ok_def pending_def)

lemma pending_sort:
  assumes "pending s hist pushed"
  shows "built (sort_routes s) (hist @ pushed)"
proof -
  have agree: "regex_length s x = compiled_length x" if "x \<in> set (hist @ pushed)" for x
  proof -
    from that assms obtain r where "routes s x = Some r" "routeRegex r = fst (compileRoute x)"
      unfolding pending_def by (metis domD)
    then show ?thesis
      by (simp add: regex_length_def compiled_length_def)
  qed
  have "sort_key (regex_length s) (sortedRoutes s) = sort_key compiled_length (sortedRoutes s)"
    by (rule sort_key_agree) (use assms agree in \<open>auto simp: pending_def\<close>)
  also have "\<dots> = sort_key compiled_length (hist @ pushed)"
    using assms by (simp add: pending_def sort_key_presorted)
  finally have order: "sortedRoutes (sort_routes s) = sort_key compiled_length (hist @ pushed)"
    by (simp add: sort_routes_def)
  have "routes (sort_routes s) = routes s"
    by (simp add: sort_routes_def)
  with order assms show ?thesis
    unfolding built_def table_ok_def pending_def by auto
qed

lemma pending_create:
  assumes "pending s hist pushed" "get_route s k = Missing"
  shows "pending (create_route k s) hist (pushed @ [k])" "k \<notin> set (hist @ pushed)"
proof -
  from assms(2) have k: "routes s k = None" "k \<notin> set object_prototype_keys"
    by (auto simp: get_route_def split: option.splits if_splits)
  with assms(1) show fresh: "k \<notin> set (hist @ pushed)"
    unfolding pending_def by (metis domIff)
  with assms(1) k show "pending (create_route k s) hist (pushed @ [k])"
    unfolding pending_def create_route_def by (auto simp: regex_new_Route)
qed

lemma pending_modify:
  assumes "pending s hist pushed" "\<And>r. routeRegex (f r) = routeRegex r"
  shows "pending (modify_route k f s) hist pushed"
proof (cases "routes s k")
  case None
  with assms(1) show ?thesis by (simp add: modify_route_def)
next
  case (Some r0)
  then have m: "modify_route k f s = s\<lparr>routes := (routes s)(k \<mapsto> f r0)\<rparr>"
    by (simp add: modify_route_def)
  have "dom ((routes s)(k \<mapsto> f r0)) = dom (routes s)"
    using Some by auto
  with assms Some show ?thesis
    unfolding pending_def m by auto
qed

lemma built_modify:
  assumes "built s hist" "\<And>r. routeRegex (f r) = routeRegex r"
  shows "built (modify_route k f s) hist"
proof -
  have "pending (modify_route k f s) hist []"
    using assms by (intro pending_modify built_pending)
  moreover have "sortedRoutes (modify_route k f s) = sortedRoutes s"
    by (simp add: modify_route_def split: option.splits)
  ultimately show ?thesis
    using assms(1) unfolding built_def table_ok_def pending_def by auto
qed

lemma regex_addHandler: "routeRegex (addHandler h u r) = routeRegex r"
  by (simp add: addHandler_def)

lemma regex_removeHandler: "routeRegex (removeHandler h u r) = routeRegex r"
  by (simp add: removeHandler_def)

lemma get_route_Own_dom: "get_route s k = Own r \<Longrightarrow> k \<in> dom (routes s)"
  by (auto simp: get_route_def split: option.splits if_splits)

lemma built_dom: "built s hist \<Longrightarrow> dom (routes s) = set hist"
  by (auto simp: built_def table_ok_def)

lemma built_addRoute:
  assumes "built s hist" "addRoute k h u s = Inr s'"
  shows "built s' (note_new hist k)"
proof (cases "get_route s k = Missing")
  case True
  from pending_create [OF built_pending [OF assms(1)] True]
  have p: "pending (create_route k s) hist [k]" and fresh: "k \<notin> set hist" by simp_all
  define s1 where "s1 = sort_routes (create_route k s)"
  have b1: "built s1 (note_new hist k)"
    using pending_sort [OF p] fresh by (simp add: s1_def note_new_def)
  from assms(2) True have "s' = modify_route k (addHandler h False) s1 \<or>
      (\<exists>u'. s' = modify_route k (addHandler u' True \<circ> addHandler h False) s1)"
    unfolding addRoute_def Let_def s1_def [symmetric]
    by (auto split: property.splits option.splits)
  then show ?thesis
    using b1 by (auto intro!: built_modify simp: regex_addHandler)
next
  case False
  with assms(2) obtain r where own: "get_route s k = Own r"
    unfolding addRoute_def Let_def by (auto split: property.splits)
  then have "note_new hist k = hist"
    using get_route_Own_dom [OF own] built_dom [OF assms(1)] by (auto simp: note_new_def)
  moreover from assms(2) False have "s' = modify_route k (addHandler h False) s \<or>
      (\<exists>u'. s' = modify_route k (addHandler u' True \<circ> addHandler h False) s)"
    unfolding addRoute_def Let_def
    by (auto split: property.splits option.splits)
  ultimately show ?thesis
    using assms(1) by (auto intro!: built_modify simp: regex_addHandler)
qed

lemma pending_addRoutes_loop:
  assumes "pending s hist pushed" "addRoutes_loop rs s = Inr s'"
  shows "\<exists>pushed'. foldl note_new (hist @ pushed) (map fst rs) = hist @ pushed' \<and>
     pending s' hist pushed'"
  using assms
proof (induction rs arbitrary: s pushed)
  case Nil
  then show ?case by auto
next
  case (Cons a rs)
  obtain k h where a: "a = (k, h)" by (cases a)
  define s1 where "s1 = (if get_route s k = Missing then create_route k s else s)"
  define p1 where "p1 = (if get_route s k = Missing then pushed @ [k] else pushed)"
  from Cons.prems(2) obtain r where own1: "get_route s1 k = Own r"
    and rest: "addRoutes_loop rs (modify_route k (addHandler h False) s1) = Inr s'"
    unfolding a addRoutes_loop.simps s1_def [symmetric] Let_def
    by (auto split: property.splits)
  have p: "pending s1 hist p1"
    using Cons.prems(1) pending_create(1) by (auto simp: s1_def p1_def)
  have nn: "note_new (hist @ pushed) k = hist @ p1"
  proof (cases "get_route s k = Missing")
    case True
    from pending_create(2) [OF Cons.prems(1) True] True show ?thesis
      by (simp add: note_new_def p1_def)
  next
    case False
    then have "s1 = s" by (simp add: s1_def)
    with own1 have "k \<in> dom (routes s)" using get_route_Own_dom by simp
    with Cons.prems(1) have "k \<in> set (hist @ pushed)"
      unfolding pending_def by simp
    with False show ?thesis
      by (simp add: note_new_def p1_def)
  qed
  have "pending (modify_route k (addHandler h False) s1) hist p1"
    using p by (rule pending_modify) (simp add: regex_addHandler)
  from Cons.IH [OF this rest] show ?case
    by (simp add: a nn)
qed

lemma built_addRoutes:
  assumes "built s hist" "addRoutes rs s = Inr s'"
  shows "built s' (foldl note_new hist (map fst rs))"
proof -
  from assms(2) obtain s1 where loop: "addRoutes_loop rs s = Inr s1" and s': "s' = sort_routes s1"
    unfolding addRoutes_def by (auto split: sum.splits)
  from pending_addRoutes_loop [OF built_pending [OF assms(1)] loop] obtain pushed' where
    "foldl note_new hist (map fst rs) = hist @ pushed'" "pending s1 hist pushed'"
    by auto
  with pending_sort s' show ?thesis by simp
qed

lemma built_removeRoute:
  assumes "built s hist" "removeRoute k h u s = Inr s'"
  shows "built s' hist"
proof -
  from assms(2) have "s' = s \<or> s' = modify_route k (removeHandler h False) s \<or>
      (\<exists>u'. s' = modify_route k (removeHandler u' True \<circ> removeHandler h False) s)"
    unfolding removeRoute_def by (auto split: property.splits option.splits)
  then show ?thesis
    using assms(1) by (auto intro!: built_modify simp: regex_removeHandler)
qed

lemma built_removeRoutes:
  "built s hist \<Longrightarrow> removeRoutes rs s = Inr s' \<Longrightarrow> built s' hist"
proof (induction rs arbitrary: s)
  case Nil
  then show ?case by simp
next
  case (Cons a rs)
  obtain k h where a: "a = (k, h)" by (cases a)
  show ?case
  proof (cases "get_route s k")
    case Missing
    with Cons show ?thesis by (simp add: a)
  next
    case Inherited
    with Cons show ?thesis by (simp add: a)
  next
    case (Own r)
    with Cons.prems have "removeRoutes rs (modify_route k (removeHandler h False) s) = Inr s'"
      by (simp add: a)
    moreover have "built (modify_route k (removeHandler h False) s) hist"
      using Cons.prems(1) by (rule built_modify) (simp add: regex_removeHandler)
    ultimately show ?thesis by (rule Cons.IH [rotated])
  qed
qed

lemma built_run_action:
  assumes "built s hist" "run_action a s = Inr s'"
  shows "built s' (foldl note_new hist (keys_of a))"
  using assms
  by (cases a) (auto dest: built_addRoute built_addRoutes built_removeRoute built_removeRoutes)

lemma built_run_actions:
  "built s hist \<Longrightarrow> run_actions as s = Inr s' \<Longrightarrow>
   built s' (foldl note_new hist (concat (map keys_of as)))"
proof (induction as arbitrary: s hist)
  case Nil
  then show ?case by simp
next
  case (Cons a as)
  from Cons.prems(2) obtain s1 where s1: "run_action a s = Inr s1" "run_actions as s1 = Inr s'"
    by (auto split: sum.splits)
  from Cons.IH [OF built_run_action [OF Cons.prems(1) s1(1)] s1(2)] show ?case
    by simp
qed

lemma built_Router0: "built Router0 []"
  by (simp add: built_def table_ok_def Router0_def)

lemma table_ok_run_actions: "run_actions calls Router0 = Inr s \<Longrightarrow> table_ok s"
  using built_run_actions [OF built_Router0] by (auto simp: built_def)

lemma modify_route_frame:
  "dom (routes (modify_route k f s)) = dom (routes s)"
  "sortedRoutes (modify_route k f s) = sortedRoutes s"
  by (auto simp: modify_route_def split: option.splits)

lemma removeRoute_frame:
  assumes "removeRoute k h u s = Inr s'"
  shows "dom (routes s') = dom (routes s) \<and> sortedRoutes s' = sortedRoutes s"
proof -
  from assms have "s' = s \<or> (\<exists>f. s' = modify_route k f s)"
    unfolding removeRoute_def by (auto split: property.splits option.splits)
  then show ?thesis
    using modify_route_frame by metis
qed

lemma removeRoutes_frame:
  "removeRoutes rs s = Inr s' \<Longrightarrow>
   dom (routes s') = dom (routes s) \<and> sortedRoutes s' = sortedRoutes s"
proof (induction rs arbitrary: s)
  case Nil
  then show ?case by simp
next
  case (Cons a rs)
  obtain k h where a: "a = (k, h)" by (cases a)
  show ?case
  proof (cases "get_route s k")
    case Missing
    with Cons show ?thesis by (simp add: a)
  next
    case Inherited
    with Cons show ?thesis by (simp add: a)
  next
    case (Own r)
    with Cons.prems have "removeRoutes rs (modify_route k (removeHandler h False) s) = Inr s'"
      by (simp add: a)
    from Cons.IH [OF this] show ?thesis
      by (simp add: modify_route_frame)
  qed
qed

lemma built_regex_length:
  assumes "built s hist"
  shows "map (regex_length s) (sortedRoutes s) = map compiled_length (sortedRoutes s)"
proof (rule map_cong [OF refl])
  fix k assume "k \<in> set (sortedRoutes s)"
  with assms obtain r where "routes s k = Some r" "routeRegex r = fst (compileRoute k)"
    unfolding built_def table_ok_def by (metis domD)
  then show "regex_length s k = compiled_length k"
    by (simp add: regex_length_def compiled_length_def)
qed

text \<open>
  Every call keeps the table well formed, whether it returns or raises: the table
  operations, a handler body, \<open>dispatchEvent\<close>, \<open>dispatch\<close> and the loop of
  \<open>onLocationChanged\<close>. Only the order of the keys can be lost.
\<close>

lemma state_of_simps: "state_of (Inl (e, s)) = s" "state_of (Inr s) = s"
  by (simp_all add: state_of_def)

lemma table_ok_wf: "table_ok s \<longleftrightarrow> table_wf s \<and> sorted (map compiled_length (sortedRoutes s))"
  by (auto simp: table_ok_def table_wf_def)

lemma table_wf_pending: "table_wf s \<longleftrightarrow> pending s [] (sortedRoutes s)"
  by (auto simp: table_wf_def pending_def)

lemma table_wf_create: "table_wf s \<Longrightarrow> get_route s k = Missing \<Longrightarrow> table_wf (create_route k s)"
  using pending_create(1) [of s "[]" "sortedRoutes s" k]
  by (simp add: table_wf_pending create_route_def)

lemma table_wf_modify:
  "table_wf s \<Longrightarrow> (\<And>r. routeRegex (f r) = routeRegex r) \<Longrightarrow> table_wf (modify_route k f s)"
  using pending_modify [of s "[]" "sortedRoutes s" f k]
  by (simp add: table_wf_pending modify_route_frame)

lemma table_wf_sort: "table_wf s \<Longrightarrow> table_wf (sort_routes s)"
  using pending_sort [of s "[]" "sortedRoutes s"]
  by (simp add: table_wf_pending [of s] built_def table_ok_wf)

lemma table_wf_trace: "table_wf (s\<lparr>trace := t\<rparr>) = table_wf s"
  by (simp add: table_wf_def)

lemma table_wf_log: "table_wf (log e s) = table_wf s"
  by (simp add: log_def table_wf_trace)

lemma table_wf_addRoute:
  assumes "table_wf s"
  shows "table_wf (state_of (addRoute k h u s))"
proof -
  define s1 where "s1 = (if get_route s k = Missing then sort_routes (create_route k s) else s)"
  have s1: "table_wf s1"
    using assms by (simp add: s1_def table_wf_sort table_wf_create)
  have "state_of (addRoute k h u s) = s1 \<or>
      state_of (addRoute k h u s) = modify_route k (addHandler h False) s1 \<or>
      (\<exists>u'. state_of (addRoute k h u s) =
         modify_route k (addHandler u' True \<circ> addHandler h False) s1)"
    unfolding addRoute_def Let_def s1_def [symmetric] state_of_def
    by (auto split: property.splits option.splits)
  with s1 show ?thesis
    by (auto intro!: table_wf_modify simp: regex_addHandler)
qed

lemma table_wf_addRoutes_loop:
  "table_wf s \<Longrightarrow> table_wf (state_of (addRoutes_loop rs s))"
proof (induction rs arbitrary: s)
  case Nil
  then show ?case by (simp add: state_of_def)
next
  case (Cons a rs)
  obtain k h where a: "a = (k, h)" by (cases a)
  define s1 where "s1 = (if get_route s k = Missing then create_route k s else s)"
  have s1: "table_wf s1"
    using Cons.prems by (simp add: s1_def table_wf_create)
  then have "table_wf (modify_route k (addHandler h False) s1)"
    by (rule table_wf_modify) (simp add: regex_addHandler)
  from Cons.IH [OF this] s1 show ?case
    unfolding a addRoutes_loop.simps Let_def s1_def [symmetric]
    by (auto simp: state_of_def split: property.splits)
qed

lemma table_wf_addRoutes: "table_wf s \<Longrightarrow> table_wf (state_of (addRoutes rs s))"
  using table_wf_addRoutes_loop [of s rs]
  by (auto simp: addRoutes_def state_of_def table_wf_sort split: sum.splits)

lemma table_wf_removeRoute:
  assumes "table_wf s"
  shows "table_wf (state_of (removeRoute k h u s))"
proof -
  have "state_of (removeRoute k h u s) = s \<or>
      state_of (removeRoute k h u s) = modify_route k (removeHandler h False) s \<or>
      (\<exists>u'. state_of (removeRoute k h u s) =
         modify_route k (removeHandler u' True \<circ> removeHandler h False) s)"
    unfolding removeRoute_def state_of_def
    by (auto split: property.splits option.splits)
  with assms show ?thesis
    by (auto intro!: table_wf_modify simp: regex_removeHandler)
qed

lemma table_wf_removeRoutes: "table_wf s \<Longrightarrow> table_wf (state_of (removeRoutes rs s))"
proof (induction rs arbitrary: s)
  case Nil
  then show ?case by (simp add: state_of_def)
next
  case (Cons a rs)
  obtain k h where a: "a = (k, h)" by (cases a)
  have "table_wf (modify_route k (removeHandler h False) s)"
    using Cons.prems by (rule table_wf_modify) (simp add: regex_removeHandler)
  from Cons.IH [OF this] Cons.IH [OF Cons.prems] Cons.prems show ?case
    unfolding a by (auto simp: state_of_def split: property.splits)
qed

lemma table_wf_run_action: "table_wf s \<Longrightarrow> table_wf (state_of (run_action a s))"
  by (cases a)
     (simp_all add: table_wf_addRoute table_wf_addRoutes table_wf_removeRoute table_wf_removeRoutes)

lemma table_wf_Router0: "table_wf Router0"
  by (simp add: table_wf_def Router0_def)

lemma table_wf_after_calls: "table_wf s \<Longrightarrow> table_wf (after_calls calls s)"
  unfolding after_calls_def
  by (induction calls arbitrary: s) (simp_all add: table_wf_run_action)

lemma table_wf_run_actions: "table_wf s \<Longrightarrow> table_wf (state_of (run_actions as s))"
proof (induction as arbitrary: s)
  case Nil
  then show ?case by (simp add: state_of_simps)
next
  case (Cons a as)
  from table_wf_run_action [OF Cons.prems, of a] Cons.IH show ?case
    by (cases "run_action a s") (auto simp: state_of_simps)
qed

lemma table_wf_dispatchEvent:
  "table_wf s \<Longrightarrow> table_wf (state_of (dispatchEvent henv hs u ea s))"
proof (induction hs arbitrary: s)
  case Nil
  then show ?case by (simp add: state_of_simps)
next
  case (Cons h hs)
  have "table_wf (log (Invoke h u ea) s)"
    using Cons.prems by (simp add: table_wf_log)
  from table_wf_run_actions [OF this, of "henv h"] Cons.IH show ?case
    by (cases "run_actions (henv h) (log (Invoke h u ea) s)") (auto simp: state_of_simps)
qed

lemma table_wf_dispatch:
  assumes "table_wf s"
  shows "table_wf (state_of (dispatch_to eng henv key L s))"
proof (cases "routes s key")
  case None
  with assms show ?thesis
    by (simp add: dispatch_to_def dispatch_def state_of_simps)
next
  case (Some r)
  have w: "table_wf (modify_route key f (log (Dispatch key) s))"
    if "\<And>r. routeRegex (f r) = routeRegex r" for f
    using assms that by (intro table_wf_modify) (simp_all add: table_wf_log)
  show ?thesis
  proof (cases "str_match eng L (routeRegex r)")
    case Throws
    with Some assms show ?thesis
      by (simp add: dispatch_to_def dispatch_def Let_def state_of_simps table_wf_log)
  next
    case Null
    define this1 where "this1 = modify_route key (\<lambda>r. r\<lparr>s_args := None\<rparr>) (log (Dispatch key) s)"
    have w1: "table_wf this1"
      unfolding this1_def by (rule w) simp
    define res where "res = (if active r
        then dispatchEvent henv (unrouted r) True [(js ''route'', RouteRef key)] this1
        else Inr this1)"
    have wr: "table_wf (state_of res)"
      using w1 table_wf_dispatchEvent [OF w1] by (simp add: res_def state_of_simps)
    have d: "dispatch eng henv key L s =
        (case res of Inl e \<Rightarrow> Inl e
         | Inr this2 \<Rightarrow> Inr (False, modify_route key (\<lambda>r. r\<lparr>active := False\<rparr>) this2))"
      using Some Null by (simp add: dispatch_def Let_def res_def this1_def)
    show ?thesis
    proof (cases res)
      case (Inl raised)
      with wr show ?thesis
        by (cases raised) (simp add: d dispatch_to_def state_of_simps)
    next
      case (Inr this2)
      with wr have "table_wf (modify_route key (\<lambda>r. r\<lparr>active := False\<rparr>) this2)"
        by (intro table_wf_modify) (simp_all add: state_of_simps)
      with Inr show ?thesis
        by (simp add: d dispatch_to_def state_of_simps)
    qed
  next
    case (Matches caps)
    obtain eargs str where ra: "routed_args key (params r) caps = (eargs, str)"
      by (cases "routed_args key (params r) caps")
    define this1 where
      "this1 = modify_route key (\<lambda>r. r\<lparr>changed := (Some str \<noteq> s_args r)\<rparr>) (log (Dispatch key) s)"
    have w1: "table_wf this1"
      unfolding this1_def by (rule w) simp
    define res where "res = dispatchEvent henv (routed r) False eargs this1"
    have wr: "table_wf (state_of res)"
      using table_wf_dispatchEvent [OF w1] by (simp add: res_def)
    have d: "dispatch eng henv key L s =
        (case res of Inl e \<Rightarrow> Inl e
         | Inr this2 \<Rightarrow>
             Inr (True, modify_route key (\<lambda>r. r\<lparr>s_args := Some str, active := True\<rparr>) this2))"
      using Some Matches ra by (simp add: dispatch_def Let_def res_def this1_def)
    show ?thesis
    proof (cases res)
      case (Inl raised)
      with wr show ?thesis
        by (cases raised) (simp add: d dispatch_to_def state_of_simps)
    next
      case (Inr this2)
      with wr have "table_wf (modify_route key (\<lambda>r. r\<lparr>s_args := Some str, active := True\<rparr>) this2)"
        by (intro table_wf_modify) (simp_all add: state_of_simps)
      with Inr show ?thesis
        by (simp add: d dispatch_to_def state_of_simps)
    qed
  qed
qed

lemma table_wf_frame:
  "routes s' = routes s \<Longrightarrow> sortedRoutes s' = sortedRoutes s \<Longrightarrow> table_wf s' = table_wf s"
  by (simp add: table_wf_def)

lemma table_wf_setRoute: "table_wf (setRoute t silent s) = table_wf s"
  by (rule table_wf_frame) (simp_all add: setRoute_def Let_def log_def)

lemma table_wf_dispatch_pass:
  assumes "dispatch_pass eng henv i s = Some y"
  shows "table_wf s \<longrightarrow> table_wf (state_of y)"
  using assms
proof (induction rule: dispatch_pass.raw_induct [rotated, consumes 1])
  case (1 pass eng henv i s y)
  show ?case
  proof
    assume w: "table_wf s"
    show "table_wf (state_of y)"
    proof (cases "i < length (sortedRoutes s)")
      case False
      with "1.hyps" have "y = Inr s" by simp
      with w show ?thesis by (simp add: state_of_simps)
    next
      case True
      from table_wf_dispatch [OF w, of eng henv "sortedRoutes s ! i" "location s"]
      have wd: "table_wf (state_of (map_sum id snd
          (dispatch eng henv (sortedRoutes s ! i) (location s) s)))"
        by (simp add: dispatch_to_def)
      show ?thesis
      proof (cases "dispatch eng henv (sortedRoutes s ! i) (location s) s")
        case (Inl raised)
        with "1.hyps" True have "y = Inl raised" by simp
        with wd Inl show ?thesis by (cases raised) (simp add: state_of_simps)
      next
        case (Inr res)
        obtain b s1 where res: "res = (b, s1)" by (cases res)
        with "1.hyps" True Inr have "pass eng henv (i + 1) s1 = Some y" by simp
        from "1.IH" [OF this] wd Inr res show ?thesis
          by (simp add: state_of_simps)
      qed
    qed
  qed
qed

lemma table_wf_onLocationChanged:
  assumes "onLocationChanged eng henv platform_hash s = Some y" "table_wf s"
  shows "table_wf (state_of y)"
proof -
  define c where "c = substr_from platform_hash 1"
  have w: "table_wf (s\<lparr>location := c, args := split_on 0x2F c\<rparr>)"
    using assms(2) table_wf_frame [of "s\<lparr>location := c, args := split_on 0x2F c\<rparr>" s] by simp
  from assms(1) have "y = Inr (log (Replace (js ''#'' @ realLocation s c None)) s) \<or>
      y = Inr (s\<lparr>location := c, args := split_on 0x2F c,
                ignoreHashchangeEvent := ignoreHashchangeEvent s - 1\<rparr>) \<or>
      dispatch_pass eng henv 0 (s\<lparr>location := c, args := split_on 0x2F c\<rparr>) = Some y"
    unfolding onLocationChanged_def Let_def c_def [symmetric]
    by (auto split: if_splits)
  then show ?thesis
  proof (elim disjE)
    assume "y = Inr (log (Replace (js ''#'' @ realLocation s c None)) s)"
    with assms(2) show ?thesis by (simp add: state_of_simps table_wf_log)
  next
    assume "y = Inr (s\<lparr>location := c, args := split_on 0x2F c,
                ignoreHashchangeEvent := ignoreHashchangeEvent s - 1\<rparr>)"
    with assms(2) table_wf_frame [of "s\<lparr>location := c, args := split_on 0x2F c,
        ignoreHashchangeEvent := ignoreHashchangeEvent s - 1\<rparr>" s]
    show ?thesis by (simp add: state_of_simps)
  next
    assume "dispatch_pass eng henv 0 (s\<lparr>location := c, args := split_on 0x2F c\<rparr>) = Some y"
    from table_wf_dispatch_pass [OF this] w show ?thesis by simp
  qed
qed

lemmas table_eval2 = table_eval addRoutes_def removeRoute_def removeHandler_def

text \<open>
  Claim C5. The source describes \<open>sortedRoutes\<close> as "Sorted list of routes. Smaller
  routes are processed first than larger ones", and \<open>addRoute\<close> and \<open>addRoutes\<close> sort
  it after they push a key. But \<open>addRoutes\<close> pushes inside its loop and sorts once
  after the loop, so that a call that raises on the way leaves what it pushed unsorted.
  The call \<open>addRoutes ({'/long': h0, '/': h1, 'toString': h2})\<close> on the initial router
  creates and pushes \<open>/long\<close> and \<open>/\<close>; under \<open>toString\<close> it finds the function that
  \<open>routes\<close> inherits from \<open>Object.prototype\<close>, creates nothing, and raises
  \<open>TypeError\<close> when it calls \<open>addHandler\<close> on it. The router is left with the order
  sequence \<open>/long\<close>, \<open>/\<close>, whose compiled expressions have the lengths 6 and 2:
  it holds every key of the entry map once, but it is not in ascending length.
  \<open>addRoute\<close> on a key that is there sorts nothing, and neither does \<open>removeRoute\<close>,
  so that the order stays as it is until a call creates another route.
\<close>

theorem raising_addRoutes_leaves_unsorted:
  "addRoutes [(js ''/long'', 0), (js ''/'', 1), (js ''toString'', 2)] Router0 =
     Inl (TypeError, unsorted_table) \<and>
   sortedRoutes unsorted_table = [js ''/long'', js ''/''] \<and>
   map (regex_length unsorted_table) (sortedRoutes unsorted_table) = [6, 2] \<and>
   \<not> sorted (map (regex_length unsorted_table) (sortedRoutes unsorted_table)) \<and>
   dom (routes unsorted_table) = {js ''/'', js ''/long''} \<and>
   sortedRoutes
     (after_calls [AddRoutes [(js ''/long'', 0), (js ''/'', 1), (js ''toString'', 2)],
                   AddRoute (js ''/'') 3 None, RemoveRoute (js ''/long'') 0 None] Router0) =
     [js ''/long'', js ''/'']"
  by (simp add: unsorted_table_def after_calls_def state_of_def table_eval2 compile_eval)

text \<open>
  When every call of a sequence returns, the order sequence is as the source
  describes it: the stable sort, by ascending length of the compiled expression, of
  the keys in the order in which the calls first named them. It is sorted by the
  lengths that the comparator reads, the keys of any one length stand in their
  insertion order, and it holds every key of the entry map exactly once.
  \<open>removeRoute\<close> and \<open>removeRoutes\<close> change neither the keys of the entry map nor the
  order sequence, whatever is left of the handler lists.
\<close>

lemma table_order_after_returning_calls:
  "(run_actions calls Router0 = Inr s \<longrightarrow>
      sortedRoutes s = sort_key compiled_length (insertion_order calls) \<and>
      filter (\<lambda>k. compiled_length k = n) (sortedRoutes s) =
        filter (\<lambda>k. compiled_length k = n) (insertion_order calls) \<and>
      sorted (map (regex_length s) (sortedRoutes s)) \<and>
      distinct (sortedRoutes s) \<and> set (sortedRoutes s) = dom (routes s)) \<and>
   (removeRoute route onRoute onUnroute this = Inr this' \<longrightarrow>
      dom (routes this') = dom (routes this) \<and> sortedRoutes this' = sortedRoutes this) \<and>
   (removeRoutes rs this = Inr this'' \<longrightarrow>
      dom (routes this'') = dom (routes this) \<and> sortedRoutes this'' = sortedRoutes this)"
proof (intro conjI impI)
  assume run: "run_actions calls Router0 = Inr s"
  from built_run_actions [OF built_Router0 run]
  have b: "built s (insertion_order calls)"
    by (simp add: insertion_order_def)
  then show order: "sortedRoutes s = sort_key compiled_length (insertion_order calls)"
    by (simp add: built_def)
  show "filter (\<lambda>k. compiled_length k = n) (sortedRoutes s) =
        filter (\<lambda>k. compiled_length k = n) (insertion_order calls)"
    unfolding order by (rule sort_key_stable)
  from b show "sorted (map (regex_length s) (sortedRoutes s))"
    by (simp add: built_regex_length) (simp add: built_def table_ok_def)
  from b show "distinct (sortedRoutes s)" "set (sortedRoutes s) = dom (routes s)"
    unfolding built_def table_ok_def by blast+
next
  assume "removeRoute route onRoute onUnroute this = Inr this'"
  from removeRoute_frame [OF this]
  show "dom (routes this') = dom (routes this)" "sortedRoutes this' = sortedRoutes this"
    by simp_all
next
  assume "removeRoutes rs this = Inr this''"
  from removeRoutes_frame [OF this]
  show "dom (routes this'') = dom (routes this)" "sortedRoutes this'' = sortedRoutes this"
    by simp_all
qed

section \<open>Properties of the dispatch pass\<close>

lemma dispatched_append: "dispatched (xs @ ys) = dispatched xs @ dispatched ys"
  by (induction xs rule: dispatched.induct) auto


lemma built_trace: "built (s\<lparr>trace := t\<rparr>) hist = built s hist"
  by (simp add: built_def table_ok_def)

lemma built_log: "built (log e s) hist = built s hist"
  by (simp add: log_def built_trace)

lemma built_run_actions_ex:
  assumes "built s hist" "run_actions as s = Inr s'"
  shows "\<exists>added. built s' (hist @ added)"
  using built_run_actions [OF assms] note_new_extends [of hist "concat (map keys_of as)"]
  by auto

lemma built_dispatchEvent:
  "built s hist \<Longrightarrow> dispatchEvent henv hs u ea s = Inr s' \<Longrightarrow> \<exists>added. built s' (hist @ added)"
proof (induction hs arbitrary: s hist)
  case Nil
  then have "built s' (hist @ [])" by simp
  then show ?case by blast
next
  case (Cons h hs)
  from Cons.prems(2) obtain s1 where s1: "run_actions (henv h) (log (Invoke h u ea) s) = Inr s1"
    and rest: "dispatchEvent henv hs u ea s1 = Inr s'"
    by (auto split: sum.splits)
  from built_run_actions_ex [OF _ s1] Cons.prems(1) obtain m1 where "built s1 (hist @ m1)"
    by (auto simp: built_log)
  from Cons.IH [OF this rest] obtain m2 where "built s' (hist @ (m1 @ m2))"
    by auto
  then show ?case by blast
qed

lemma dispatch_Inr:
  assumes "dispatch eng henv key L s = Inr (b, s')"
  shows "\<exists>r f g hs u ea this2.
     routes s key = Some r \<and> (\<forall>x. routeRegex (f x) = routeRegex x) \<and>
     (\<forall>x. routeRegex (g x) = routeRegex x) \<and>
     dispatchEvent henv hs u ea (modify_route key f (log (Dispatch key) s)) = Inr this2 \<and>
     s' = modify_route key g this2"
proof -
  from assms obtain r where r: "routes s key = Some r"
    by (auto simp: dispatch_def split: option.splits)
  show ?thesis
  proof (cases "str_match eng L (routeRegex r)")
    case Throws
    with assms r show ?thesis by (simp add: dispatch_def Let_def)
  next
    case Null
    define f where "f = (\<lambda>r::route. r\<lparr>s_args := None\<rparr>)"
    define g where "g = (\<lambda>r::route. r\<lparr>active := False\<rparr>)"
    define hs where "hs = (if active r then unrouted r else [])"
    from assms r Null obtain this2 where
      "dispatchEvent henv hs True [(js ''route'', RouteRef key)]
         (modify_route key f (log (Dispatch key) s)) = Inr this2"
      "s' = modify_route key g this2"
      unfolding dispatch_def Let_def f_def g_def hs_def
      by (auto split: sum.splits if_splits)
    moreover have "\<forall>x. routeRegex (f x) = routeRegex x" "\<forall>x. routeRegex (g x) = routeRegex x"
      by (simp_all add: f_def g_def)
    ultimately show ?thesis using r by blast
  next
    case (Matches caps)
    obtain eargs str where ra: "routed_args key (params r) caps = (eargs, str)"
      by (cases "routed_args key (params r) caps")
    define f where "f = (\<lambda>r::route. r\<lparr>changed := (Some str \<noteq> s_args r)\<rparr>)"
    define g where "g = (\<lambda>r::route. r\<lparr>s_args := Some str, active := True\<rparr>)"
    from assms r Matches ra obtain this2 where
      "dispatchEvent henv (routed r) False eargs
         (modify_route key f (log (Dispatch key) s)) = Inr this2"
      "s' = modify_route key g this2"
      unfolding dispatch_def Let_def f_def g_def
      by (auto split: sum.splits)
    moreover have "\<forall>x. routeRegex (f x) = routeRegex x" "\<forall>x. routeRegex (g x) = routeRegex x"
      by (simp_all add: f_def g_def)
    ultimately show ?thesis using r by blast
  qed
qed

lemma modify_route_trace: "trace (modify_route k f s) = trace s"
  by (simp add: modify_route_def split: option.splits)

lemma modify_route_location: "location (modify_route k f s) = location s"
  by (simp add: modify_route_def split: option.splits)

lemma dispatch_step:
  assumes "built s hist" "dispatch eng henv key L s = Inr (b, s')"
  shows "\<exists>added ext. built s' (hist @ added) \<and> trace s' = trace s @ Dispatch key # ext"
proof -
  from dispatch_Inr [OF assms(2)] obtain r f g hs u ea this2 where
    f: "\<forall>x. routeRegex (f x) = routeRegex x" and g: "\<forall>x. routeRegex (g x) = routeRegex x"
    and ev: "dispatchEvent henv hs u ea (modify_route key f (log (Dispatch key) s)) = Inr this2"
    and s': "s' = modify_route key g this2"
    by blast
  have "built (modify_route key f (log (Dispatch key) s)) hist"
    using assms(1) f by (intro built_modify) (simp_all add: built_log)
  from built_dispatchEvent [OF this ev] obtain added where "built this2 (hist @ added)"
    by blast
  then have b: "built s' (hist @ added)"
    unfolding s' using g by (intro built_modify) simp_all
  have "trace this2 = trace s @ Dispatch key # map (\<lambda>h. Invoke h u ea) hs"
    using grows_trace [OF dispatchEvent_grows [OF ev]]
    by (simp add: modify_route_trace log_def)
  then have "trace s' = trace s @ Dispatch key # map (\<lambda>h. Invoke h u ea) hs"
    by (simp add: s' modify_route_trace)
  with b show ?thesis by blast
qed

lemma built_subseq:
  assumes "built s hist" "built s' (hist @ added)"
  shows "subseq (sortedRoutes s) (sortedRoutes s')"
proof -
  from assms(2) have "set hist \<inter> set added = {}"
    by (auto simp: built_def)
  from subseq_sort_key_append [OF this] assms show ?thesis
    by (simp add: built_def)
qed

lemma dispatch_pass_reaches:
  assumes "dispatch_pass eng henv i s = Some y"
  shows "\<forall>hist s'. built s hist \<longrightarrow> y = Inr s' \<longrightarrow>
     (\<exists>ext. trace s' = trace s @ ext \<and>
        set (drop i (sortedRoutes s)) \<subseteq> set (dispatched ext))"
  using assms
proof (induction rule: dispatch_pass.raw_induct [rotated, consumes 1])
  case (1 pass eng henv i s y)
  show ?case
  proof (intro allI impI)
    fix hist s'
    assume b: "built s hist" and y: "y = Inr s'"
    show "\<exists>ext. trace s' = trace s @ ext \<and>
        set (drop i (sortedRoutes s)) \<subseteq> set (dispatched ext)"
    proof (cases "i < length (sortedRoutes s)")
      case False
      with "1.hyps" y have "s' = s" by simp
      with False show ?thesis by simp
    next
      case True
      with "1.hyps" y obtain b1 s1 where
        d: "dispatch eng henv (sortedRoutes s ! i) (location s) s = Inr (b1, s1)"
        and rest: "pass eng henv (i + 1) s1 = Some y"
        by (auto split: sum.splits)
      from dispatch_step [OF b d] obtain added e0 where
        b1: "built s1 (hist @ added)"
        and t1: "trace s1 = trace s @ Dispatch (sortedRoutes s ! i) # e0"
        by blast
      from "1.IH" [OF rest] b1 y obtain ext1 where
        t': "trace s' = trace s1 @ ext1"
        and sub: "set (drop (i + 1) (sortedRoutes s1)) \<subseteq> set (dispatched ext1)"
        by blast
      have "set (drop (i + 1) (sortedRoutes s)) \<subseteq> set (drop (i + 1) (sortedRoutes s1))"
        using built_subseq [OF b b1] by (rule subseq_drop_set)
      moreover have "drop i (sortedRoutes s) = sortedRoutes s ! i # drop (i + 1) (sortedRoutes s)"
        using True by (simp add: Cons_nth_drop_Suc)
      ultimately have "set (drop i (sortedRoutes s)) \<subseteq>
          set (dispatched (Dispatch (sortedRoutes s ! i) # e0 @ ext1))"
        using sub by (auto simp: dispatched_append)
      moreover have "trace s' = trace s @ (Dispatch (sortedRoutes s ! i) # e0 @ ext1)"
        by (simp add: t' t1)
      ultimately show ?thesis by blast
    qed
  qed
qed

lemma table_ok_built: "table_ok s \<Longrightarrow> built s (sortedRoutes s)"
  by (auto simp: built_def table_ok_def sort_key_id_if_sorted)

lemmas pass_eval = pass_calls_def dispatch_pass.simps dispatch_eval table_eval compile_eval
  match_eval

text \<open>
  Claim C4, as amended. The loop of \<open>onLocationChanged\<close> takes no snapshot: it indexes
  the order sequence as the handlers leave it. Let the table be well formed and sorted
  when the pass starts (\<open>table_ok\<close>: the order sequence holds the keys of the entry
  map, each once and in ascending compiled length, every entry holds the expression
  compiled from its key, and no key is a name of \<open>Object.prototype\<close>), as the table
  operations leave it as long as none of them raises. Then a pass that returns has
  called \<open>dispatch\<close> at least once on every route that was in the order sequence when
  it started, whatever routes the handlers add or remove meanwhile, and whatever the
  platform does with the compiled expressions: the table operations never take a key
  out of the sequence, and in a sorted sequence a new key only moves the keys behind
  it one place further on.
\<close>

theorem pass_reaches_every_initial_route:
  assumes "table_ok this" "pass_calls eng henv this = Some ks" "k \<in> set (sortedRoutes this)"
  shows "k \<in> set ks"
proof -
  from assms(2) obtain this' where p: "dispatch_pass eng henv 0 this = Some (Inr this')"
    and ks: "ks = dispatched (drop (length (trace this)) (trace this'))"
    by (auto simp: pass_calls_def split: option.splits sum.splits)
  from dispatch_pass_reaches [OF p] table_ok_built [OF assms(1)] obtain ext where
    "trace this' = trace this @ ext" "set (sortedRoutes this) \<subseteq> set (dispatched ext)"
    by auto
  with ks assms(3) show ?thesis by auto
qed

theorem pass_reaches_every_initial_route_witness:
  "table_ok adding_router \<and> js ''/a'' \<in> set (sortedRoutes adding_router) \<and>
   pass_calls fragment_only adding_env adding_router = Some [js ''/a'', js ''/a''] \<and>
   js ''/a'' \<in> set [js ''/a'', js ''/a'']"
proof -
  have ok: "table_ok adding_router"
    by (auto simp: table_ok_def adding_router_def modify_route_def create_route_def Router0_def
        addHandler_def regex_new_Route object_prototype_keys_def js_simps split: if_splits)
  have p: "pass_calls fragment_only adding_env adding_router = Some [js ''/a'', js ''/a'']"
    by (simp add: pass_eval adding_env_def adding_router_def)
  have k: "js ''/a'' \<in> set (sortedRoutes adding_router)"
    by (simp add: adding_router_def modify_route_def create_route_def Router0_def)
  from pass_reaches_every_initial_route [OF ok p k] ok p k show ?thesis by simp
qed

text \<open>
  Claim C4 as stated fails: with the single route \<open>/a\<close>, whose handler adds the route
  \<open>/\<close>, the new key is sorted in before \<open>/a\<close>, and the pass calls \<open>dispatch\<close> on \<open>/a\<close>
  a second time. And a route can be left out when the order sequence is not sorted as
  the pass starts: on \<open>unsorted_table\<close>, with the order \<open>/long\<close>, \<open>/\<close>, the handler of
  \<open>/long\<close> adds the route \<open>/zz\<close>, the sort that follows moves \<open>/\<close> to the front, and
  the pass goes on with \<open>/zz\<close> and \<open>/long\<close>: it never calls \<open>dispatch\<close> on \<open>/\<close>.
\<close>

theorem live_order_counterexample:
  "addRoute (js ''/a'') 0 None Router0 = Inr (adding_router\<lparr>location := []\<rparr>) \<and>
   sortedRoutes adding_router = [js ''/a''] \<and>
   pass_calls fragment_only adding_env adding_router = Some [js ''/a'', js ''/a''] \<and>
   addRoutes [(js ''/long'', 0), (js ''/'', 1), (js ''toString'', 2)] Router0 =
     Inl (TypeError, unsorted_table) \<and>
   sortedRoutes unsorted_table = [js ''/long'', js ''/''] \<and>
   pass_calls fragment_only skipping_env (unsorted_table\<lparr>location := js ''/long''\<rparr>) =
     Some [js ''/long'', js ''/zz'', js ''/long'']"
  by (simp add: pass_eval adding_env_def adding_router_def skipping_env_def unsorted_table_def
      state_of_def table_eval2)






lemma table_ok_location: "table_ok (s\<lparr>location := L\<rparr>) = table_ok s"
  by (simp add: table_ok_def)


lemma inert_location: "inert henv (s\<lparr>location := L\<rparr>) = inert henv s"
  by (simp add: inert_def)





section \<open>Properties of setRoute and onLocationChanged\<close>

lemma table_ok_frame:
  "routes s' = routes s \<Longrightarrow> sortedRoutes s' = sortedRoutes s \<Longrightarrow> table_ok s' = table_ok s"
  by (simp add: table_ok_def)

lemma setRoute_frame:
  "routes (setRoute t silent s) = routes s" "sortedRoutes (setRoute t silent s) = sortedRoutes s"
  "location (setRoute t silent s) = location s"
  by (simp_all add: setRoute_def Let_def log_def)

lemma dispatched_mem: "k \<in> set (dispatched ext) \<Longrightarrow> Dispatch k \<in> set ext"
  by (induction ext rule: dispatched.induct) auto

lemmas notify_eval = notify_calls_def onLocationChanged_def setRoute_def rl_eval pass_eval
  example_table_def table_eval2

text \<open>
  Claim C7. When the target differs from the current location, \<open>setRoute (t, true)\<close>
  adds exactly one to \<open>ignoreHashchangeEvent\<close> and assigns the target to the
  platform's hash. If the counter was \<open>0\<close>, the next notification that commits (its
  location is its own reconciliation) sets \<open>location\<close> and \<open>args\<close>, puts the counter
  back to \<open>0\<close> and calls \<open>dispatch\<close> on no route; the committing notification after
  that one runs the dispatch pass, which on a well-formed, sorted table calls
  \<open>dispatch\<close> on every route of the order sequence when it returns.
\<close>

theorem silent_setRoute_suppresses_one:
  assumes "realLocation this t None \<noteq> location this"
  shows "let s1 = setRoute t True this;
             c1 = substr_from h1 1;
             s2 = s1\<lparr>location := c1, args := split_on 0x2F c1, ignoreHashchangeEvent := 0\<rparr>;
             c2 = substr_from h2 1
         in ignoreHashchangeEvent s1 = ignoreHashchangeEvent this + 1 \<and>
            trace s1 = trace this @ [SetHash (realLocation this t None)] \<and>
            (ignoreHashchangeEvent this = 0 \<and> realLocation s1 c1 None = c1 \<longrightarrow>
               onLocationChanged eng henv h1 s1 = Some (Inr s2) \<and>
               notify_calls eng henv h1 s1 = Some [] \<and>
               (realLocation s2 c2 None = c2 \<longrightarrow>
                  onLocationChanged eng henv h2 s2 =
                    dispatch_pass eng henv 0 (s2\<lparr>location := c2, args := split_on 0x2F c2\<rparr>) \<and>
                  (table_ok this \<and> notify_calls eng henv h2 s2 = Some ks \<and>
                   k \<in> set (sortedRoutes this) \<longrightarrow> k \<in> set ks)))"
proof -
  define s1 where "s1 = setRoute t True this"
  define c1 where "c1 = substr_from h1 1"
  define s2 where "s2 = s1\<lparr>location := c1, args := split_on 0x2F c1, ignoreHashchangeEvent := 0\<rparr>"
  define c2 where "c2 = substr_from h2 1"
  have s1: "s1 = (this\<lparr>ignoreHashchangeEvent := ignoreHashchangeEvent this + 1\<rparr>)
      \<lparr>trace := trace this @ [SetHash (realLocation this t None)]\<rparr>"
    using assms by (simp add: s1_def setRoute_def Let_def log_def)
  have a: "ignoreHashchangeEvent s1 = ignoreHashchangeEvent this + 1"
    "trace s1 = trace this @ [SetHash (realLocation this t None)]"
    by (simp_all add: s1)
  have b: "onLocationChanged eng henv h1 s1 = Some (Inr s2)"
    if "ignoreHashchangeEvent this = 0" "realLocation s1 c1 None = c1"
    using that a(1) unfolding c1_def s2_def by (simp add: onLocationChanged_def Let_def)
  have c: "trace s2 = trace s1" "sortedRoutes s2 = sortedRoutes this"
    "ignoreHashchangeEvent s2 = 0"
    by (simp_all add: s2_def s1)
  have b': "notify_calls eng henv h1 s1 = Some []"
    if "ignoreHashchangeEvent this = 0" "realLocation s1 c1 None = c1"
    using b [OF that] by (simp add: notify_calls_def c(1))
  have d: "onLocationChanged eng henv h2 s2 =
      dispatch_pass eng henv 0 (s2\<lparr>location := c2, args := split_on 0x2F c2\<rparr>)"
    if "realLocation s2 c2 None = c2"
    using that c(3) unfolding c2_def by (simp add: onLocationChanged_def Let_def)
  have e: "k \<in> set ks"
    if "realLocation s2 c2 None = c2" "table_ok this" "notify_calls eng henv h2 s2 = Some ks"
      "k \<in> set (sortedRoutes this)"
  proof -
    let ?s = "s2\<lparr>location := c2, args := split_on 0x2F c2\<rparr>"
    from that(3) obtain s3 where s3: "onLocationChanged eng henv h2 s2 = Some (Inr s3)"
      and ks: "ks = dispatched (drop (length (trace s2)) (trace s3))"
      by (auto simp: notify_calls_def split: option.splits sum.splits)
    have "table_ok ?s = table_ok this"
      by (rule table_ok_frame) (simp_all add: s2_def s1)
    with that(2) have "table_ok ?s" by simp
    then have "built ?s (sortedRoutes ?s)"
      by (rule table_ok_built)
    moreover have "dispatch_pass eng henv 0 ?s = Some (Inr s3)"
      using d [OF that(1)] s3 by simp
    ultimately obtain ext where "trace s3 = trace ?s @ ext"
      "set (drop 0 (sortedRoutes ?s)) \<subseteq> set (dispatched ext)"
      using dispatch_pass_reaches by blast
    then show ?thesis
      using that(4) c(2) ks by auto
  qed
  from a b b' d e show ?thesis
    unfolding Let_def s1_def [symmetric] c1_def [symmetric] s2_def [symmetric] c2_def [symmetric]
    by blast
qed

theorem silent_setRoute_suppresses_one_witness:
  "ignoreHashchangeEvent (setRoute (js ''/a/5'') True example_table) = 1 \<and>
   notify_calls fragment_only (\<lambda>h. []) (js ''#/a/5'') (setRoute (js ''/a/5'') True example_table) = Some [] \<and>
   notify_calls fragment_only (\<lambda>h. []) (js ''#/b'')
     ((setRoute (js ''/a/5'') True example_table)
        \<lparr>location := js ''/a/5'', args := split_on 0x2F (js ''/a/5''),
         ignoreHashchangeEvent := 0\<rparr>) = Some [js ''/'', js ''/a'', js ''/a/:id'']"
proof -
  have loc: "location example_table = []" "ignoreHashchangeEvent example_table = 0"
    by (simp_all add: example_table_def table_eval2 compile_eval)
  have r1: "realLocation example_table (js ''/a/5'') None = js ''/a/5''"
    by (simp add: loc rl_eval)
  then have h: "realLocation example_table (js ''/a/5'') None \<noteq> location example_table"
    by (simp add: loc js_simps)
  have c1: "substr_from (js ''#/a/5'') 1 = js ''/a/5''"
    by (simp add: substr_from_def js_simps)
  have r2: "realLocation (setRoute (js ''/a/5'') True example_table) (js ''/a/5'') None = js ''/a/5''"
    by (simp add: realLocation_def rl_context_def setRoute_frame loc)
       (simp add: rl_eval)
  note t = silent_setRoute_suppresses_one [OF h, where ?h1.0 = "js ''#/a/5''"
      and ?h2.0 = "js ''#/b''" and henv = "\<lambda>h. []", unfolded Let_def c1]
  have "ignoreHashchangeEvent (setRoute (js ''/a/5'') True example_table) = 1"
    using t by (simp add: loc)
  moreover have "notify_calls fragment_only (\<lambda>h. []) (js ''#/a/5'') (setRoute (js ''/a/5'') True example_table) = Some []"
    using t loc(2) r2 by blast
  moreover have "notify_calls fragment_only (\<lambda>h. []) (js ''#/b'')
     ((setRoute (js ''/a/5'') True example_table)
        \<lparr>location := js ''/a/5'', args := split_on 0x2F (js ''/a/5''),
         ignoreHashchangeEvent := 0\<rparr>) = Some [js ''/'', js ''/a'', js ''/a/:id'']"
    by (simp add: notify_eval)
  ultimately show ?thesis by simp
qed

end
